theory Spec2Isabelle
  imports Complex_Main "HOL-Library.Sublist"
begin

section \<open>The agent orchestrator\<close>

text \<open>
  The orchestrator is given by the design document "Agent core design" (its text
  follows the components in \<open>insightsentinel/App.tsx\<close>), sections 2 to 4. The phases
  of the agent, the thought step and the agent state are its Python declarations. Python's unbounded \<open>int\<close> is \<open>int\<close>;
  \<open>datetime\<close> is a number of milliseconds; a \<open>Dict[str, Any]\<close> is an association
  list of strings; \<open>float\<close> scores are kept as reals (no claim computes with them).
\<close>

datatype AgentPhase =
    IDLE | PLANNING | EXECUTING | SEARCHING | SCRAPING | EXPANDING
  | CRITIQUING | SYNTHESIZING | RECOVERING | COMPLETED | FAILED

record ThoughtStep =
  step_id :: string
  phase :: AgentPhase
  timestamp :: int
  thought :: string
  action :: "string option"
  observation :: "string option"
  tool_calls :: "(string \<times> string) list list"
  tokens_used :: int
  duration_ms :: int

record AgentState =
  task_id :: string
  original_command :: string
  current_phase :: AgentPhase
  thought_chain :: "ThoughtStep list"
  discovered_keywords :: "string list"
  pending_searches :: "string list"
  collected_data :: "(string \<times> string) list list"
  credibility_scores :: "(string \<times> real) list"
  total_tokens :: int
  error_count :: int
  max_steps :: int
  current_step :: int

text \<open>
  \<open>AgentState(task_id=..., original_command=command, current_phase=PLANNING)\<close>:
  every other field takes its declared default.
\<close>

definition new_state :: "string \<Rightarrow> string \<Rightarrow> AgentState" where
  "new_state tid command =
     \<lparr> task_id = tid, original_command = command, current_phase = PLANNING,
       thought_chain = [], discovered_keywords = [], pending_searches = [],
       collected_data = [], credibility_scores = [], total_tokens = 0,
       error_count = 0, max_steps = 10, current_step = 0 \<rparr>"

text \<open>
  The phase methods \<open>_plan\<close>, \<open>_execute_step\<close>, \<open>_expand_search\<close>, \<open>_critique\<close>,
  \<open>_synthesize\<close> and \<open>_recover\<close> are asynchronous generators whose bodies the
  document does not give. Each is a parameter here: called on the state, it yields
  thought steps, leaves the state changed, and either finishes or raises an
  \<open>Exception\<close> (the steps yielded before the raise are already with the consumer).
\<close>

type_synonym exn = string

type_synonym gen = "ThoughtStep list \<times> AgentState \<times> exn option"

record helpers =
  plan :: "AgentState \<Rightarrow> string \<Rightarrow> gen"
  execute_step :: "AgentState \<Rightarrow> gen"
  expand_search :: "AgentState \<Rightarrow> string \<Rightarrow> gen"
  critique :: "AgentState \<Rightarrow> gen"
  synthesize :: "AgentState \<Rightarrow> gen"
  recover :: "AgentState \<Rightarrow> exn \<Rightarrow> gen"

text \<open>
  What \<open>run\<close> does is recorded as a trace: \<open>Enter c\<close> when \<open>run\<close> calls a phase
  method, \<open>Yield s\<close> for every step it passes on to its consumer.
\<close>

datatype call =
    Plan | ExecuteStep | ExpandSearch string | Critique | Synthesize | Recover exn

datatype event = Enter call | Yield ThoughtStep

type_synonym outcome = "event list \<times> AgentState \<times> exn option"

text \<open>
  The loop of steps 2 and 3:
  \<^verbatim>\<open>
  while state.current_step < state.max_steps:
      state.current_step += 1
      async for step in self._execute_step(state): yield step
      if state.pending_searches:
          keyword = state.pending_searches.pop(0)
          async for step in self._expand_search(state, keyword): yield step
      else:
          break
  \<close>
  The phase methods are arbitrary, so the loop is a partial function: \<open>None\<close> is a
  loop that never ends. A result \<open>(tr, s, Some x)\<close> is the exception \<open>x\<close> leaving
  the loop in state \<open>s\<close>.
\<close>

partial_function (option) agent_loop ::
  "helpers \<Rightarrow> AgentState \<Rightarrow> event list \<Rightarrow> outcome option"
where
  "agent_loop h state tr =
     (if current_step state < max_steps state then
        (case execute_step h (state\<lparr>current_step := current_step state + 1\<rparr>) of
           (ys, state2, e) \<Rightarrow>
             (case e of
                Some x \<Rightarrow> Some (tr @ Enter ExecuteStep # map Yield ys, state2, Some x)
              | None \<Rightarrow>
                 (case pending_searches state2 of
                    [] \<Rightarrow> Some (tr @ Enter ExecuteStep # map Yield ys, state2, None)
                  | keyword # rest \<Rightarrow>
                     (case expand_search h (state2\<lparr>pending_searches := rest\<rparr>) keyword of
                        (zs, state3, e') \<Rightarrow>
                          (case e' of
                             Some x \<Rightarrow>
                               Some (tr @ Enter ExecuteStep # map Yield ys
                                        @ Enter (ExpandSearch keyword) # map Yield zs,
                                     state3, Some x)
                           | None \<Rightarrow>
                               agent_loop h state3
                                 (tr @ Enter ExecuteStep # map Yield ys
                                     @ Enter (ExpandSearch keyword) # map Yield zs))))))
      else Some (tr, state, None))"

text \<open>
  A phase method that runs to its end hands the state on to what follows it; one that
  raises ends the \<open>try\<close> block.
\<close>

definition after :: "outcome option \<Rightarrow> call \<Rightarrow> (AgentState \<Rightarrow> gen) \<Rightarrow> outcome option" where
  "after r c g =
     (case r of
        None \<Rightarrow> None
      | Some (tr, state, Some x) \<Rightarrow> Some (tr, state, Some x)
      | Some (tr, state, None) \<Rightarrow>
         (case g state of (ys, state', e) \<Rightarrow> Some (tr @ Enter c # map Yield ys, state', e)))"

definition after_loop :: "outcome option \<Rightarrow> helpers \<Rightarrow> outcome option" where
  "after_loop r h =
     (case r of
        None \<Rightarrow> None
      | Some (tr, state, Some x) \<Rightarrow> Some (tr, state, Some x)
      | Some (tr, state, None) \<Rightarrow> agent_loop h state tr)"

text \<open>The body of the \<open>try\<close>: plan, the loop, critique, synthesize.\<close>

definition try_body :: "helpers \<Rightarrow> AgentState \<Rightarrow> string \<Rightarrow> outcome option" where
  "try_body h state command =
     after (after (after_loop (after (Some ([], state, None)) Plan (\<lambda>s. plan h s command)) h)
              Critique (critique h))
       Synthesize (synthesize h)"

text \<open>
  \<open>run\<close>: the state is created, the \<open>try\<close> body runs, and \<open>except Exception as e\<close> hands
  any exception to \<open>_recover\<close>. The task id comes from \<open>generate_task_id()\<close> and is an
  argument here. An exception raised by \<open>_recover\<close> itself leaves \<open>run\<close>.
\<close>

definition run :: "helpers \<Rightarrow> string \<Rightarrow> string \<Rightarrow> outcome option" where
  "run h tid command =
     (case try_body h (new_state tid command) command of
        None \<Rightarrow> None
      | Some (tr, state, None) \<Rightarrow> Some (tr, state, None)
      | Some (tr, state, Some x) \<Rightarrow>
         (case recover h state x of
            (ys, state', e) \<Rightarrow> Some (tr @ Enter (Recover x) # map Yield ys, state', e)))"

text \<open>The number of times the loop body ran: one \<open>_execute_step\<close> call per iteration.\<close>

definition iterations :: "event list \<Rightarrow> nat" where
  "iterations tr = length (filter (\<lambda>ev. ev = Enter ExecuteStep) tr)"

fun is_expansion :: "event \<Rightarrow> bool" where
  "is_expansion (Enter (ExpandSearch k)) = True"
| "is_expansion ev = False"

definition expansions :: "event list \<Rightarrow> nat" where
  "expansions tr = length (filter is_expansion tr)"

text \<open>
  The condition on the phase methods under which the step budget bounds the loop: a
  method may not move the step counter back nor raise the budget. (The loop itself is
  the only code of the document that writes \<open>current_step\<close>.)
\<close>

definition keeps_budget :: "AgentState \<Rightarrow> gen \<Rightarrow> bool" where
  "keeps_budget s r =
     (case r of (ys, s', e) \<Rightarrow> current_step s \<le> current_step s' \<and> max_steps s' \<le> max_steps s)"

text \<open>
  What the loop leaves behind, as a predicate on its result for a start trace \<open>tr\<close>:
  the trace grows by a stretch in which expansions never outnumber iterations and at
  most the last iteration is without one, and a loop that ends without an exception
  ends on an empty queue or a spent budget.
\<close>

definition well_shaped :: "event list \<Rightarrow> outcome \<Rightarrow> bool" where
  "well_shaped tr r =
     ((\<exists>d. fst r = tr @ d \<and> expansions d \<le> iterations d \<and> iterations d \<le> expansions d + 1)
       \<and> (snd (snd r) = None \<longrightarrow>
            pending_searches (fst (snd r)) = []
            \<or> max_steps (fst (snd r)) \<le> current_step (fst (snd r))))"

subsection \<open>Two concrete tasks\<close>

text \<open>
  Phase methods for two runs of the loop. In the first the planner sets a budget of two
  steps and queues six keywords; in the second the first executed step discovers the
  keyword \<open>Y\<close>. Every other phase method does nothing.
\<close>

definition idle :: "AgentState \<Rightarrow> gen" where
  "idle s = ([], s, None)"

definition budget_of_two :: helpers where
  "budget_of_two =
     \<lparr> plan = (\<lambda>s c. ([], s\<lparr>max_steps := min 2 (max_steps s),
                  pending_searches := [''k1'', ''k2'', ''k3'', ''k4'', ''k5'', ''k6'']\<rparr>, None)),
       execute_step = idle,
       expand_search = (\<lambda>s k. idle s),
       critique = idle,
       synthesize = idle,
       recover = (\<lambda>s x. idle s) \<rparr>"

definition discovers_Y :: helpers where
  "discovers_Y =
     \<lparr> plan = (\<lambda>s c. idle s),
       execute_step = (\<lambda>s. ([], if current_step s = 1
                                 then s\<lparr>pending_searches := pending_searches s @ [''Y'']\<rparr>
                                 else s, None)),
       expand_search = (\<lambda>s k. idle s),
       critique = idle,
       synthesize = idle,
       recover = (\<lambda>s x. idle s) \<rparr>"

section \<open>Recovery strategies ("Agent core design", section 7)\<close>














section \<open>The crawler's request with retry ("Crawler system design", section 2)\<close>

text \<open>
  One attempt of \<open>_request_with_retry\<close> takes a proxy from the pool, waits for the rate
  limiter and sends the request. What the world answers to the attempt is an input:
  either a response with a status and a JSON body, or an exception raised on the way
  (by the proxy pool, the rate limiter or the HTTP client).
\<close>

datatype crawler_exn =
    RateLimitedException
  | CrawlerException nat  \<comment> \<open>\<open>CrawlerException(f"HTTP {response.status}")\<close>\<close>
  | OtherException string

datatype 'j reply = Response nat 'j | Raises crawler_exn

datatype effect = MarkFailed string | Sleep nat

datatype 'j py_result = Return 'j | ReturnNone | Raise crawler_exn

text \<open>
  \<^verbatim>\<open>
  for attempt in range(max_retries):
      try:
          proxy = await self.proxy_pool.get()
          ...
                  if response.status == 200:
                      return await response.json()
                  elif response.status == 403:
                      await self.proxy_pool.mark_failed(proxy)
                      raise RateLimitedException()
                  else:
                      raise CrawlerException(f"HTTP {response.status}")
      except RateLimitedException:
          await asyncio.sleep(2 ** attempt)
          continue
  \<close>
  \<open>attempts world attempt n acts\<close> runs the \<open>n\<close> iterations that are left, \<open>attempt\<close>
  being the loop variable; \<open>world i\<close> is the proxy handed out at attempt \<open>i\<close> and the
  answer to it. \<open>acts\<close> collects the proxies marked as failed and the sleeps, in
  seconds. After the last iteration the function ends without a \<open>return\<close>: Python
  returns \<open>None\<close>.
\<close>

fun attempts ::
  "(nat \<Rightarrow> string \<times> 'j reply) \<Rightarrow> nat \<Rightarrow> nat \<Rightarrow> effect list \<Rightarrow> 'j py_result \<times> effect list"
where
  "attempts world attempt 0 acts = (ReturnNone, acts)"
| "attempts world attempt (Suc n) acts =
     (case world attempt of
        (proxy, Response status body) \<Rightarrow>
          if status = 200 then (Return body, acts)
          else if status = 403 then
            attempts world (attempt + 1) n (acts @ [MarkFailed proxy, Sleep (2 ^ attempt)])
          else (Raise (CrawlerException status), acts)
      | (proxy, Raises x) \<Rightarrow>
          if x = RateLimitedException then
            attempts world (attempt + 1) n (acts @ [Sleep (2 ^ attempt)])
          else (Raise x, acts))"

text \<open>\<open>range(max_retries)\<close> is empty for a \<open>max_retries\<close> below one; the default is 3.\<close>

definition request_with_retry ::
  "(nat \<Rightarrow> string \<times> 'j reply) \<Rightarrow> int \<Rightarrow> 'j py_result \<times> effect list"
where
  "request_with_retry world max_retries = attempts world 0 (nat max_retries) []"

section \<open>Model routing ("Agent core design", section 6.2)\<close>










section \<open>The agent service of the front end (insightsentinel/services/agentService.ts)\<close>

subsection \<open>Parsed JSON and JavaScript's view of it\<close>

text \<open>
  What \<open>JSON.parse\<close> returns. Numbers are kept as integers (the documented events carry
  whole numbers only); an object is the list of its members in the order of the text.
\<close>

datatype json =
    JNull | JBool bool | JNum int | JStr string | JArr "json list" | JObj "(string \<times> json) list"

text \<open>
  \<open>parsed.key\<close> for the keys the service reads: \<open>None\<close> is \<open>undefined\<close>. Of a repeated
  member \<open>JSON.parse\<close> keeps the last; numbers, strings, booleans and arrays have no
  property of these names. (Reading a property of \<open>null\<close> throws; see \<open>dispatch\<close>.)
\<close>

definition field :: "json \<Rightarrow> string \<Rightarrow> json option" where
  "field v k = (case v of JObj members \<Rightarrow> map_of (rev members) k | _ \<Rightarrow> None)"

text \<open>The values an \<open>if\<close>, \<open>&&\<close> or \<open>||\<close> takes for true.\<close>

fun truthy :: "json option \<Rightarrow> bool" where
  "truthy None = False"
| "truthy (Some JNull) = False"
| "truthy (Some (JBool b)) = b"
| "truthy (Some (JNum n)) = (n \<noteq> 0)"
| "truthy (Some (JStr s)) = (s \<noteq> [])"
| "truthy (Some (JArr xs)) = True"
| "truthy (Some (JObj ms)) = True"

text \<open>\<open>a || b\<close>\<close>

definition or_else :: "json option \<Rightarrow> json option \<Rightarrow> json option" where
  "or_else a b = (if truthy a then a else b)"

text \<open>
  \<open>ToString\<close> and \<open>ToPrimitive\<close> on a parsed value (a template literal, a property key,
  the argument of \<open>new Date\<close> or \<open>new Error\<close>) throw a \<open>TypeError\<close> where the value
  cannot be converted to a primitive. A parsed object cannot when it has a member
  \<open>toString\<close> of its own: no parsed value is a function, so that member is passed over,
  and \<open>valueOf\<close> is either another member that is no function or the inherited one,
  which returns the object. Without such a member the inherited \<open>toString\<close> answers. An
  array is joined, which converts its elements (\<open>null\<close> becomes the empty string), so it
  can be converted when they all can. \<open>undefined\<close> and the primitives always can.
\<close>

fun converts_value :: "json \<Rightarrow> bool" and converts_all :: "json list \<Rightarrow> bool" where
  "converts_value JNull = True"
| "converts_value (JBool b) = True"
| "converts_value (JNum n) = True"
| "converts_value (JStr s) = True"
| "converts_value (JArr xs) = converts_all xs"
| "converts_value (JObj members) = (map_of members ''toString'' = None)"
| "converts_all [] = True"
| "converts_all (x # xs) = (converts_value x \<and> converts_all xs)"

definition converts :: "json option \<Rightarrow> bool" where
  "converts v = (case v of None \<Rightarrow> True | Some x \<Rightarrow> converts_value x)"

subsection \<open>Callbacks\<close>

text \<open>
  The \<open>TaskResult\<close> handed to \<open>onComplete\<close>, the errors handed to \<open>onError\<close>, and the
  calls the service makes to its three callbacks. \<open>OnThought p\<close> is the call
  \<open>onThought(thoughtToLog(p))\<close>, made when \<open>thoughtToLog(p)\<close> returns.
  \<open>onComplete\<close> and \<open>onError\<close> are optional; \<open>OnComplete\<close> and \<open>OnError\<close> are the calls
  \<open>onComplete?.(...)\<close> and \<open>onError?.(...)\<close>, which reach the caller's function when it
  gave one. The callbacks are the caller's code; they are taken to return.
\<close>

datatype TaskResult =
  TaskResult (result_task_id: "json option") (result_total_tokens: "json option")
             (result_status: "json option")

datatype js_error =
    Thrown string string      \<comment> \<open>an error object: its name and its message\<close>
  | ErrorOf "json option"     \<comment> \<open>\<open>new Error(parsed.error)\<close>\<close>
  | HttpError nat string      \<comment> \<open>\<open>new Error(`HTTP ${response.status}: ${response.statusText}`)\<close>\<close>
  | NoResponseBody            \<comment> \<open>\<open>new Error('No response body')\<close>\<close>

fun error_name :: "js_error \<Rightarrow> string" where
  "error_name (Thrown name message) = name"
| "error_name e = ''Error''"

datatype callback = OnThought json | OnComplete TaskResult | OnError js_error

subsection \<open>One parsed event\<close>

text \<open>
  \<^verbatim>\<open>
  function thoughtToLog(thought: ThoughtStep): LogEntry {
    const level = PHASE_TO_LEVEL[thought.phase] || LogLevel.INFO;
    const timestamp = thought.timestamp
      ? new Date(thought.timestamp).toTimeString().split(' ')[0]
      : new Date().toTimeString().split(' ')[0];
    let message = thought.thought;
    if (thought.action) {
      message = `[${thought.action}] ${message}`;
    }
    return { id: thought.step_id, timestamp, level, message,
             details: thought.observation, progress: thought.progress };
  }
  \<close>
  Whether the function returns: the phase is converted to a property key; a truthy
  time stamp is converted by \<open>new Date\<close> (an invalid date prints as such and does not
  throw); with a truthy action, the action and the thought are converted by the
  template literal. It returns when none of these conversions throws. (The entry it
  returns is handed to \<open>onThought\<close> and not looked at again by the service.)
\<close>

definition thoughtToLog_returns :: "json \<Rightarrow> bool" where
  "thoughtToLog_returns parsed =
     (converts (field parsed ''phase'')
      \<and> (if truthy (field parsed ''timestamp'') then converts (field parsed ''timestamp'')
          else True)
      \<and> (if truthy (field parsed ''action'')
          then converts (field parsed ''action'') \<and> converts (field parsed ''thought'')
          else True))"

text \<open>
  \<^verbatim>\<open>
  try {
    const parsed = JSON.parse(data);
    if (parsed.step_id) {
      const log = thoughtToLog(parsed);
      onThought(log);
    } else if (parsed.task_id && parsed.status === 'completed') {
      onComplete?.({ task_id: parsed.task_id,
                     total_tokens: parsed.total_tokens || 0,
                     status: parsed.status });
    } else if (parsed.error) {
      onError?.(new Error(parsed.error));
    }
  } catch (e) {
    console.warn('Failed to parse SSE data:', data);
  }
  \<close>
  Whatever is thrown inside the \<open>try\<close> ends as a warning on the console, and no
  callback is called: the \<open>TypeError\<close> of the first property read when the payload is
  \<open>null\<close>, the one of a conversion in \<open>thoughtToLog\<close>, and the one of \<open>new Error\<close> on
  an error member that cannot be converted to the message.
\<close>

definition dispatch :: "json \<Rightarrow> callback list" where
  "dispatch parsed =
     (if parsed = JNull then []
      else if truthy (field parsed ''step_id'')
      then (if thoughtToLog_returns parsed then [OnThought parsed] else [])
      else if truthy (field parsed ''task_id'') \<and> field parsed ''status'' = Some (JStr ''completed'')
      then [OnComplete (TaskResult (field parsed ''task_id'')
                          (or_else (field parsed ''total_tokens'') (Some (JNum 0)))
                          (field parsed ''status''))]
      else if truthy (field parsed ''error'')
      then (if converts (field parsed ''error'') then [OnError (ErrorOf (field parsed ''error''))]
            else [])
      else [])"

subsection \<open>Lines of the event stream\<close>

text \<open>
  A text of the service (a chunk, a line, the data of a line) is written as the bytes
  of its UTF-8 encoding: the decoder of the read loop delivers well-formed text only, a
  line feed and the ASCII prefixes \<open>event:\<close> and \<open>data:\<close> are single bytes that occur
  inside no other character, and \<open>slice(5)\<close> behind the prefix \<open>data:\<close> drops five
  bytes.
\<close>

text \<open>The ASCII white space (the keyword queue below uses it).\<close>

definition is_space :: "char \<Rightarrow> bool" where
  "is_space c = (c \<in> set [CHR 0x09, CHR 0x0A, CHR 0x0B, CHR 0x0C, CHR 0x0D, CHR 0x20])"

text \<open>
  What \<open>String.prototype.trim\<close> strips, encoded: the white space of JavaScript (tab,
  vertical tab, form feed, space, U+00A0, U+FEFF and the other space separators
  U+1680, U+2000 to U+200A, U+202F, U+205F, U+3000) and its line terminators (line
  feed, carriage return, U+2028, U+2029).
\<close>

definition white_space :: "string list" where
  "white_space =
     [[CHR 0x09], [CHR 0x0A], [CHR 0x0B], [CHR 0x0C], [CHR 0x0D], [CHR 0x20],
      [CHR 0xC2, CHR 0xA0], [CHR 0xE1, CHR 0x9A, CHR 0x80],
      [CHR 0xE2, CHR 0x80, CHR 0x80], [CHR 0xE2, CHR 0x80, CHR 0x81],
      [CHR 0xE2, CHR 0x80, CHR 0x82], [CHR 0xE2, CHR 0x80, CHR 0x83],
      [CHR 0xE2, CHR 0x80, CHR 0x84], [CHR 0xE2, CHR 0x80, CHR 0x85],
      [CHR 0xE2, CHR 0x80, CHR 0x86], [CHR 0xE2, CHR 0x80, CHR 0x87],
      [CHR 0xE2, CHR 0x80, CHR 0x88], [CHR 0xE2, CHR 0x80, CHR 0x89],
      [CHR 0xE2, CHR 0x80, CHR 0x8A], [CHR 0xE2, CHR 0x80, CHR 0xA8],
      [CHR 0xE2, CHR 0x80, CHR 0xA9], [CHR 0xE2, CHR 0x80, CHR 0xAF],
      [CHR 0xE2, CHR 0x81, CHR 0x9F], [CHR 0xE3, CHR 0x80, CHR 0x80],
      [CHR 0xEF, CHR 0xBB, CHR 0xBF]]"

text \<open>
  \<open>strip codes s\<close> takes from the front of \<open>s\<close> every character whose encoding is among
  \<open>codes\<close>; \<open>trim\<close> does so at both ends.
\<close>

function strip :: "string list \<Rightarrow> string \<Rightarrow> string" where
  "strip codes s =
     (case find (\<lambda>w. w \<noteq> [] \<and> prefix w s) codes of
        None \<Rightarrow> s
      | Some w \<Rightarrow> strip codes (drop (length w) s))"
  by pat_completeness auto
termination
proof (relation "measure (\<lambda>(codes, s). length s)")
  show "wf (measure (\<lambda>(codes, s). length s))" by simp
next
  fix codes :: "string list" and s w :: string
  assume "find (\<lambda>w. w \<noteq> [] \<and> prefix w s) codes = Some w"
  then have "w \<noteq> []" and "prefix w s"
    by (auto simp: find_Some_iff)
  then have "s \<noteq> []" and "0 < length w"
    by auto
  then show "((codes, drop (length w) s), (codes, s)) \<in> measure (\<lambda>(codes, s). length s)"
    by simp
qed

declare strip.simps [simp del]

definition trim :: "string \<Rightarrow> string" where
  "trim s = rev (strip (map rev white_space) (rev (strip white_space s)))"

text \<open>
  \<^verbatim>\<open>
  if (line.startsWith('event:')) { const eventType = line.slice(6).trim(); continue; }
  if (line.startsWith('data:')) {
    const data = line.slice(5).trim();
    if (!data) continue;
    try { const parsed = JSON.parse(data); ... } catch (e) { console.warn(...); }
  }
  \<close>
  \<open>JSON.parse\<close> is a parameter: \<open>None\<close> is the \<open>SyntaxError\<close> it throws, which the
  \<open>catch\<close> swallows. The event type is read and never used.
\<close>

definition handle_data :: "(string \<Rightarrow> json option) \<Rightarrow> string \<Rightarrow> callback list" where
  "handle_data parse data =
     (if data = [] then []
      else (case parse data of None \<Rightarrow> [] | Some parsed \<Rightarrow> dispatch parsed))"

definition handle_line :: "(string \<Rightarrow> json option) \<Rightarrow> string \<Rightarrow> callback list" where
  "handle_line parse line =
     (if prefix ''event:'' line then []
      else if prefix ''data:'' line then handle_data parse (trim (drop 5 line))
      else [])"

text \<open>
  \<open>s.split('\n')\<close>: the stretches between line feeds, at least one (the whole string
  when it has no line feed).
\<close>

definition cons_hd :: "char \<Rightarrow> string list \<Rightarrow> string list" where
  "cons_hd c ls = (case ls of [] \<Rightarrow> [[c]] | l # rest \<Rightarrow> (c # l) # rest)"

fun split_nl :: "string \<Rightarrow> string list" where
  "split_nl [] = [[]]"
| "split_nl (c # cs) = (if c = CHR 0x0A then [] # split_nl cs else cons_hd c (split_nl cs))"

text \<open>
  The read loop, one chunk of decoded text at a time:
  \<^verbatim>\<open>
  buffer += decoder.decode(value, { stream: true });
  const lines = buffer.split('\n');
  buffer = lines.pop() || '';
  for (const line of lines) { ... }
  \<close>
  When the reader is done the loop ends; what is left in the buffer is dropped.
\<close>

fun read_loop :: "(string \<Rightarrow> json option) \<Rightarrow> string \<Rightarrow> string list \<Rightarrow> callback list" where
  "read_loop parse buffer [] = []"
| "read_loop parse buffer (chunk # chunks) =
     (let lines = split_nl (buffer @ chunk)
      in concat (map (handle_line parse) (butlast lines))
           @ read_loop parse (last lines) chunks)"

subsection \<open>The request\<close>

text \<open>
  What \<open>fetch\<close> and the reader of the response body do is an input: the request is
  rejected (a network error, or an \<open>AbortError\<close> when the signal fires), or a response
  arrives with its status, its status text and its body; the body is absent, or its
  reader delivers chunks and then is done or rejects.
\<close>

datatype body = NoBody | Body "string list" "(string \<times> string) option"

datatype fetch_outcome = Rejected string string | Responded nat string body

text \<open>\<open>response.ok\<close>\<close>

definition response_ok :: "nat \<Rightarrow> bool" where
  "response_ok status = (200 \<le> status \<and> status \<le> 299)"

text \<open>
  The outer \<open>catch\<close>: an \<open>AbortError\<close> is logged and dropped, any other error goes to
  \<open>onError\<close>.
\<close>

definition catch_outer :: "js_error \<Rightarrow> callback list" where
  "catch_outer e = (if error_name e = ''AbortError'' then [] else [OnError e])"

definition stream_callbacks :: "(string \<Rightarrow> json option) \<Rightarrow> fetch_outcome \<Rightarrow> callback list" where
  "stream_callbacks parse outcome =
     (case outcome of
        Rejected name message \<Rightarrow> catch_outer (Thrown name message)
      | Responded status status_text b \<Rightarrow>
          if \<not> response_ok status then catch_outer (HttpError status status_text)
          else (case b of
                  NoBody \<Rightarrow> catch_outer NoResponseBody
                | Body chunks failure \<Rightarrow>
                    read_loop parse [] chunks
                      @ (case failure of
                           None \<Rightarrow> []
                         | Some (name, message) \<Rightarrow> catch_outer (Thrown name message))))"

text \<open>
  The wire format of one event, after the document "Backend API design" (section 2.1):
  an \<open>event:\<close> line, a \<open>data:\<close> line and a separating line, each ended by a line
  feed. \<open>kind\<close> and \<open>data\<close> are what follows the colon on their lines, with the space
  behind the colon and the carriage return before the line feed when the sender writes
  them; the separating line is empty or a carriage return.
\<close>

definition framed_event :: "string \<Rightarrow> string \<Rightarrow> string \<Rightarrow> string" where
  "framed_event kind data blank =
     ''event:'' @ kind @ [CHR 0x0A] @ ''data:'' @ data @ [CHR 0x0A] @ blank @ [CHR 0x0A]"

subsection \<open>The abort controller\<close>

text \<open>
  The service keeps at most one \<open>AbortController\<close>. The controllers it has created are
  numbered in the order of their creation; \<open>controllers ! c\<close> tells whether the signal of
  controller \<open>c\<close> has been aborted.
\<close>

record service =
  abortController :: "nat option"
  controllers :: "bool list"

definition new_service :: service where
  "new_service = \<lparr> abortController = None, controllers = [] \<rparr>"

text \<open>
  \<^verbatim>\<open>
  abort(): void {
    if (this.abortController) {
      this.abortController.abort();
      this.abortController = null;
    }
  }
  \<close>
\<close>

definition abort :: "service \<Rightarrow> service" where
  "abort sv =
     (case abortController sv of
        None \<Rightarrow> sv
      | Some c \<Rightarrow> sv\<lparr>controllers := (controllers sv)[c := True], abortController := None\<rparr>)"

text \<open>
  The start of \<open>executeWithStream\<close>, up to the call of \<open>fetch\<close> with the new signal; it
  runs without a pause, being the part of the \<open>async\<close> function before its first
  \<open>await\<close>:
  \<^verbatim>\<open>
  this.abort();
  this.abortController = new AbortController();
  \<close>
\<close>

definition executeWithStream_start :: "service \<Rightarrow> service" where
  "executeWithStream_start sv =
     (let sv1 = abort sv
      in sv1\<lparr>controllers := controllers sv1 @ [False],
              abortController := Some (length (controllers sv1))\<rparr>)"

text \<open>The calls on a service that touch the controller, and a sequence of them.\<close>

datatype service_call = ExecuteWithStream | Abort

fun call_service :: "service \<Rightarrow> service_call \<Rightarrow> service" where
  "call_service sv ExecuteWithStream = executeWithStream_start sv"
| "call_service sv Abort = abort sv"

definition calls :: "service_call list \<Rightarrow> service" where
  "calls cs = foldl call_service new_service cs"

text \<open>
  The requests that can still be in flight: those whose signal has not been aborted.
\<close>

definition live :: "service \<Rightarrow> nat list" where
  "live sv = filter (\<lambda>c. \<not> controllers sv ! c) [0 ..< length (controllers sv)]"

text \<open>
  What holds of a service whatever calls were made on it: every controller but the one
  it keeps has been aborted, and the one it keeps is one it created.
\<close>

definition controller_inv :: "service \<Rightarrow> bool" where
  "controller_inv sv =
     ((\<forall>c < length (controllers sv). abortController sv \<noteq> Some c \<longrightarrow> controllers sv ! c)
      \<and> (\<forall>c. abortController sv = Some c \<longrightarrow> c < length (controllers sv)))"

subsection \<open>The health check\<close>

text \<open>
  What the back end does with the health request: it answers after some milliseconds
  with a status, it cannot be reached, or it never answers. \<open>AbortSignal.timeout(ms)\<close>
  makes \<open>fetch\<close> reject with a \<open>TimeoutError\<close> unless the answer comes first; an answer
  that takes \<open>ms\<close> milliseconds or more is taken to come too late.
\<close>

datatype backend = Answers nat nat | Unreachable | Silent

definition fetch_with_timeout :: "nat \<Rightarrow> backend \<Rightarrow> js_error + nat" where
  "fetch_with_timeout ms b =
     (case b of
        Answers delay status \<Rightarrow>
          if delay < ms then Inr status else Inl (Thrown ''TimeoutError'' ''signal timed out'')
      | Unreachable \<Rightarrow> Inl (Thrown ''TypeError'' ''Failed to fetch'')
      | Silent \<Rightarrow> Inl (Thrown ''TimeoutError'' ''signal timed out''))"

text \<open>
  \<^verbatim>\<open>
  async healthCheck(): Promise<boolean> {
    try {
      const response = await fetch(..., { method: 'GET', signal: AbortSignal.timeout(3000) });
      return response.ok;
    } catch {
      return false;
    }
  }
  \<close>
  The result is \<open>Inr\<close> a boolean when the promise resolves and \<open>Inl\<close> an error when
  it rejects.
\<close>

definition healthCheck :: "backend \<Rightarrow> js_error + bool" where
  "healthCheck b =
     (case (case fetch_with_timeout 3000 b of
              Inl e \<Rightarrow> Inl e
            | Inr status \<Rightarrow> Inr (response_ok status)) of
        Inl e \<Rightarrow> Inr False
      | Inr ok \<Rightarrow> Inr ok)"

subsection \<open>Events of the API document\<close>

text \<open>
  Payloads after the example stream of "Backend API design" (section 2.1), as text and as
  \<open>JSON.parse\<close> reads them: thought events, the \<open>complete\<close> event as the document
  gives it, and a \<open>complete\<close> event that also carries a status. \<open>parse_examples\<close> is
  \<open>JSON.parse\<close> on these texts.
\<close>

definition thought_1_text :: string where
  \<open>thought_1_text = ''{"step_id": "task_001_step_1", "phase": "planning", "progress": 10}''\<close>

definition thought_1 :: json where
  "thought_1 = JObj [(''step_id'', JStr ''task_001_step_1''), (''phase'', JStr ''planning''),
                     (''progress'', JNum 10)]"

definition thought_2_text :: string where
  \<open>thought_2_text = ''{"step_id": "task_001_step_2", "phase": "searching", "progress": 30}''\<close>

definition thought_2 :: json where
  "thought_2 = JObj [(''step_id'', JStr ''task_001_step_2''), (''phase'', JStr ''searching''),
                     (''progress'', JNum 30)]"

definition documented_complete_text :: string where
  \<open>documented_complete_text =
     ''{"task_id": "task_001", "intelligence_count": 15, "total_tokens": 2500}''\<close>

definition documented_complete :: json where
  "documented_complete = JObj [(''task_id'', JStr ''task_001''), (''intelligence_count'', JNum 15),
                               (''total_tokens'', JNum 2500)]"

definition completed_text :: string where
  \<open>completed_text = ''{"task_id": "task_001", "status": "completed", "total_tokens": 2500}''\<close>

definition completed :: json where
  "completed = JObj [(''task_id'', JStr ''task_001''), (''status'', JStr ''completed''),
                     (''total_tokens'', JNum 2500)]"

text \<open>A thought whose phase is an object that cannot be converted to a property key.\<close>

definition unprintable_thought_text :: string where
  \<open>unprintable_thought_text = ''{"step_id": "task_001_step_3", "phase": {"toString": 1}}''\<close>

definition unprintable_thought :: json where
  "unprintable_thought = JObj [(''step_id'', JStr ''task_001_step_3''),
                               (''phase'', JObj [(''toString'', JNum 1)])]"

definition parse_examples :: "string \<Rightarrow> json option" where
  "parse_examples s =
     (if s = thought_1_text then Some thought_1
      else if s = thought_2_text then Some thought_2
      else if s = documented_complete_text then Some documented_complete
      else if s = completed_text then Some completed
      else if s = unprintable_thought_text then Some unprintable_thought
      else None)"

section \<open>The keyword queue\<close>

text \<open>
  The enqueueing of a discovered keyword happens inside \<open>_execute_step\<close> and
  \<open>_expand_search\<close>, whose bodies are not in the repository's files: the files only
  declare the two lists \<open>discovered_keywords\<close> and \<open>pending_searches\<close> of \<open>AgentState\<close>
  and pop the queue in \<open>run\<close>. The definitions of this section follow the spec
  instead. Its words: a search scans the item text for candidate follow-up keywords,
  "enqueuing any not already seen or already queued"; "duplicate keywords
  (case-insensitive, whitespace-normalized) are never re-queued".
\<close>

text \<open>
  Modelled from the spec: the case folding of "case-insensitive", missing from the
  files; it folds the ASCII letters.
\<close>

definition to_lower :: "char \<Rightarrow> char" where
  "to_lower c =
     (case map_of (zip ''ABCDEFGHIJKLMNOPQRSTUVWXYZ'' ''abcdefghijklmnopqrstuvwxyz'') c of
        None \<Rightarrow> c
      | Some l \<Rightarrow> l)"

text \<open>
  Modelled from the spec: the white space normalisation of "whitespace-normalized",
  missing from the files; every stretch of white space between two words becomes one
  space (\<open>gap\<close> tells that white space was passed since the last word).
\<close>

fun squeeze :: "bool \<Rightarrow> string \<Rightarrow> string" where
  "squeeze gap [] = []"
| "squeeze gap (c # cs) =
     (if is_space c then squeeze True cs
      else if gap then CHR 0x20 # c # squeeze False cs
      else c # squeeze False cs)"

text \<open>
  Modelled from the spec: the form in which two keywords are compared
  ("case-insensitive, whitespace-normalized"), missing from the files: lower case, no
  white space at either end, one space between words.
\<close>

definition normalize_keyword :: "string \<Rightarrow> string" where
  "normalize_keyword k = squeeze False (dropWhile is_space (map to_lower k))"

text \<open>
  Modelled from the spec: the test "already seen or already queued", missing from the
  files. A keyword is seen when it is among the discovered keywords and queued when it
  is in the queue, both up to normalisation.
\<close>

definition seen_or_queued :: "AgentState \<Rightarrow> string \<Rightarrow> bool" where
  "seen_or_queued st k =
     (normalize_keyword k
        \<in> set (map normalize_keyword (discovered_keywords st @ pending_searches st)))"

text \<open>
  Modelled from the spec: the enqueueing of one discovered keyword ("enqueuing any not
  already seen or already queued"), missing from the files. A keyword that is neither
  seen nor queued is recorded as discovered and appended to the queue; any other leaves
  the state as it is.
\<close>

definition enqueue_keyword :: "AgentState \<Rightarrow> string \<Rightarrow> AgentState" where
  "enqueue_keyword st k =
     (if seen_or_queued st k then st
      else st\<lparr>discovered_keywords := discovered_keywords st @ [k],
              pending_searches := pending_searches st @ [k]\<rparr>)"

section \<open>Theorems\<close>

subsection \<open>The orchestrator loop: budget and expansion\<close>

lemma iterations_Nil: "iterations [] = 0"
  by (simp add: iterations_def)

lemma iterations_append: "iterations (a @ b) = iterations a + iterations b"
  by (simp add: iterations_def)
lemma iterations_Cons_Exec: "iterations (Enter ExecuteStep # a) = Suc (iterations a)"
  by (simp add: iterations_def)
lemma iterations_Cons_Expand: "iterations (Enter (ExpandSearch k) # a) = iterations a"
  by (simp add: iterations_def)
lemma iterations_Yield: "iterations (map Yield ys) = 0"
  by (simp add: iterations_def filter_empty_conv)

lemma loop_terminates:
  assumes E: "\<And>s. keeps_budget s (execute_step h s)"
      and X: "\<And>s k. keeps_budget s (expand_search h s k)"
  shows "\<exists>d s' e. agent_loop h s tr = Some (tr @ d, s', e)
           \<and> int (iterations d) \<le> max 0 (max_steps s - current_step s)
           \<and> max_steps s' \<le> max_steps s \<and> current_step s \<le> current_step s'"
proof (induction "nat (max_steps s - current_step s)" arbitrary: s tr rule: less_induct)
  case less
  show ?case
  proof (cases "current_step s < max_steps s")
    case False
    then have "agent_loop h s tr = Some (tr @ [], s, None)"
      by (subst agent_loop.simps) simp
    then show ?thesis using False by (auto simp: iterations_Nil)
  next
    case True
    let ?s1 = "s\<lparr>current_step := current_step s + 1\<rparr>"
    obtain ys s2 e where ex: "execute_step h ?s1 = (ys, s2, e)"
      by (cases "execute_step h ?s1") auto
    from E [of ?s1] ex have b2: "current_step s + 1 \<le> current_step s2" "max_steps s2 \<le> max_steps s"
      by (auto simp: keeps_budget_def)
    let ?d2 = "Enter ExecuteStep # map Yield ys"
    have it2: "iterations ?d2 = 1"
      by (simp add: iterations_Cons_Exec iterations_Yield)
    show ?thesis
    proof (cases e)
      case (Some x)
      have "agent_loop h s tr = Some (tr @ ?d2, s2, Some x)"
        by (subst agent_loop.simps) (simp add: True ex Some)
      then show ?thesis using b2 True it2 by auto
    next
      case None
      show ?thesis
      proof (cases "pending_searches s2")
        case Nil
        have "agent_loop h s tr = Some (tr @ ?d2, s2, None)"
          by (subst agent_loop.simps) (simp add: True ex None Nil)
        then show ?thesis using b2 True it2 by auto
      next
        case (Cons k rest)
        let ?s2' = "s2\<lparr>pending_searches := rest\<rparr>"
        obtain zs s3 e' where xp: "expand_search h ?s2' k = (zs, s3, e')"
          by (cases "expand_search h ?s2' k") auto
        from X [of ?s2' k] xp have b3: "current_step s2 \<le> current_step s3" "max_steps s3 \<le> max_steps s2"
          by (auto simp: keeps_budget_def)
        let ?d3 = "?d2 @ Enter (ExpandSearch k) # map Yield zs"
        have it3: "iterations ?d3 = 1"
          by (simp add: iterations_Cons_Exec iterations_Cons_Expand iterations_Yield iterations_append)
        show ?thesis
        proof (cases e')
          case (Some x)
          have "agent_loop h s tr = Some (tr @ ?d3, s3, Some x)"
            by (subst agent_loop.simps) (simp add: True ex None Cons xp Some)
          then show ?thesis using b2 b3 True it3 by auto
        next
          case None': None
          have step: "agent_loop h s tr = agent_loop h s3 (tr @ ?d3)"
            by (subst agent_loop.simps) (simp add: True ex None Cons xp None')
          have "nat (max_steps s3 - current_step s3) < nat (max_steps s - current_step s)"
            using b2 b3 True by linarith
          from less [OF this, of "tr @ ?d3"] obtain d s' e'' where
            r: "agent_loop h s3 (tr @ ?d3) = Some ((tr @ ?d3) @ d, s', e'')"
               "int (iterations d) \<le> max 0 (max_steps s3 - current_step s3)"
               "max_steps s' \<le> max_steps s3" "current_step s3 \<le> current_step s'"
            by blast
          have "agent_loop h s tr = Some (tr @ (?d3 @ d), s', e'')"
            using step r(1) by simp
          moreover have "iterations (?d3 @ d) = 1 + iterations d"
            by (simp only: iterations_append [of ?d3 d] it3)
          then have "int (iterations (?d3 @ d)) \<le> max 0 (max_steps s - current_step s)"
            using r(2) b2 b3 True by linarith
          moreover have "max_steps s' \<le> max_steps s" "current_step s \<le> current_step s'"
            using r(3,4) b2 b3 by linarith+
          ultimately show ?thesis by blast
        qed
      qed
    qed
  qed
qed


lemma after_adds_no_iteration:
  assumes "c \<noteq> ExecuteStep"
  shows "\<exists>d s' e'. after (Some (tr, s, e)) c g = Some (tr @ d, s', e') \<and> iterations d = 0"
proof (cases e)
  case (Some x)
  then have "after (Some (tr, s, e)) c g = Some (tr @ [], s, Some x)"
    by (simp add: after_def)
  then show ?thesis using iterations_Nil by blast
next
  case None
  obtain ys s' e' where g: "g s = (ys, s', e')"
    by (cases "g s") auto
  with None have "after (Some (tr, s, e)) c g = Some (tr @ Enter c # map Yield ys, s', e')"
    by (simp add: after_def)
  moreover have "iterations (Enter c # map Yield ys) = 0"
    using assms by (simp add: iterations_def filter_empty_conv)
  ultimately show ?thesis by blast
qed

lemma skipped_loop: "max_steps s \<le> current_step s \<Longrightarrow> agent_loop h s tr = Some (tr, s, None)"
  by (subst agent_loop.simps) simp

lemma try_body_bounded:
  assumes P: "\<And>s c. keeps_budget s (plan h s c)"
      and E: "\<And>s. keeps_budget s (execute_step h s)"
      and X: "\<And>s k. keeps_budget s (expand_search h s k)"
      and s0: "0 \<le> current_step s0"
  shows "\<exists>tr s' e. try_body h s0 command = Some (tr, s', e) \<and> int (iterations tr) \<le> max 0 (max_steps s0)"
proof -
  obtain d1 s1 e1 where
    a1: "after (Some ([], s0, None)) Plan (\<lambda>s. plan h s command) = Some ([] @ d1, s1, e1)"
    and i1: "iterations d1 = 0"
    using after_adds_no_iteration [where c = Plan and tr = "[]" and s = s0 and e = None
        and g = "\<lambda>s. plan h s command"] by auto
  have b1: "current_step s0 \<le> current_step s1 \<and> max_steps s1 \<le> max_steps s0"
  proof -
    obtain ys s' e' where g: "plan h s0 command = (ys, s', e')"
      by (cases "plan h s0 command") auto
    with a1 have "s1 = s'" by (simp add: after_def)
    with P [of s0 command] g show ?thesis by (simp add: keeps_budget_def)
  qed
  have "\<exists>d2 s2 e2. after_loop (Some (d1, s1, e1)) h = Some (d1 @ d2, s2, e2)
          \<and> int (iterations d2) \<le> max 0 (max_steps s0)"
  proof (cases e1)
    case (Some x)
    then have "after_loop (Some (d1, s1, e1)) h = Some (d1 @ [], s1, e1)"
      by (simp add: after_loop_def)
    then show ?thesis using iterations_Nil by fastforce
  next
    case None
    from loop_terminates [OF E X, of s1 d1] obtain d s' e where
      l: "agent_loop h s1 d1 = Some (d1 @ d, s', e)"
         "int (iterations d) \<le> max 0 (max_steps s1 - current_step s1)"
      by blast
    have "after_loop (Some (d1, s1, e1)) h = Some (d1 @ d, s', e)"
      using None l(1) by (simp add: after_loop_def)
    moreover have "int (iterations d) \<le> max 0 (max_steps s0)"
      using l(2) b1 s0 by linarith
    ultimately show ?thesis by blast
  qed
  then obtain d2 s2 e2 where
    a2: "after_loop (Some (d1, s1, e1)) h = Some (d1 @ d2, s2, e2)"
    and i2: "int (iterations d2) \<le> max 0 (max_steps s0)"
    by blast
  obtain d3 s3 e3 where
    a3: "after (Some (d1 @ d2, s2, e2)) Critique (critique h) = Some ((d1 @ d2) @ d3, s3, e3)"
    and i3: "iterations d3 = 0"
    using after_adds_no_iteration [where c = Critique and tr = "d1 @ d2" and s = s2 and e = e2
        and g = "critique h"] by auto
  obtain d4 s4 e4 where
    a4: "after (Some ((d1 @ d2) @ d3, s3, e3)) Synthesize (synthesize h)
           = Some (((d1 @ d2) @ d3) @ d4, s4, e4)"
    and i4: "iterations d4 = 0"
    using after_adds_no_iteration [where c = Synthesize and tr = "(d1 @ d2) @ d3" and s = s3
        and e = e3 and g = "synthesize h"] by auto
  have "try_body h s0 command = Some (((d1 @ d2) @ d3) @ d4, s4, e4)"
    using a1 a2 a3 a4 by (simp add: try_body_def)
  moreover have "iterations (((d1 @ d2) @ d3) @ d4) = iterations d2"
    using i1 i3 i4 by (simp add: iterations_append)
  ultimately show ?thesis using i2 by auto
qed

lemma run_bounded:
  assumes P: "\<And>s c. keeps_budget s (plan h s c)"
      and E: "\<And>s. keeps_budget s (execute_step h s)"
      and X: "\<And>s k. keeps_budget s (expand_search h s k)"
  shows "\<exists>tr s' e. run h tid command = Some (tr, s', e)
           \<and> int (iterations tr) \<le> max_steps (new_state tid command)"
proof -
  have "0 \<le> current_step (new_state tid command)"
    by (simp add: new_state_def)
  from try_body_bounded [OF P E X this, of command] obtain tr s' e where
    t: "try_body h (new_state tid command) command = Some (tr, s', e)"
       "int (iterations tr) \<le> max 0 (max_steps (new_state tid command))"
    by blast
  have m: "max 0 (max_steps (new_state tid command)) = max_steps (new_state tid command)"
    by (simp add: new_state_def)
  show ?thesis
  proof (cases e)
    case None
    with t(1) have "run h tid command = Some (tr, s', None)"
      by (simp add: run_def)
    then show ?thesis using t(2) m by auto
  next
    case (Some x)
    obtain ys s'' e' where r: "recover h s' x = (ys, s'', e')"
      by (cases "recover h s' x") auto
    with t(1) Some have "run h tid command = Some (tr @ Enter (Recover x) # map Yield ys, s'', e')"
      by (simp add: run_def)
    moreover have "iterations (tr @ Enter (Recover x) # map Yield ys) = iterations tr"
      by (simp add: iterations_def filter_empty_conv)
    ultimately show ?thesis using t(2) m by auto
  qed
qed


lemma expansions_append: "expansions (a @ b) = expansions a + expansions b"
  by (simp add: expansions_def)
lemma expansions_Yield: "expansions (map Yield ys) = 0"
  by (simp add: expansions_def filter_empty_conv)

lemma loop_shape:
  assumes "agent_loop h s tr = Some r"
  shows "well_shaped tr r"
proof (rule agent_loop.raw_induct [where P = "\<lambda>h s tr r. well_shaped tr r", OF _ assms], goal_cases)
  case (1 loop h s tr r)
  show ?case
  proof (cases "current_step s < max_steps s")
    case False
    with 1(2) have "r = (tr, s, None)" by simp
    then show ?thesis using False by (simp add: well_shaped_def iterations_def expansions_def)
  next
    case True
    let ?s1 = "s\<lparr>current_step := current_step s + 1\<rparr>"
    obtain ys s2 e where ex: "execute_step h ?s1 = (ys, s2, e)"
      by (cases "execute_step h ?s1") auto
    let ?d2 = "Enter ExecuteStep # map Yield ys"
    have c2: "iterations ?d2 = 1" "expansions ?d2 = 0"
      by (simp_all add: iterations_def expansions_def filter_empty_conv)
    show ?thesis
    proof (cases e)
      case (Some x)
      with 1(2) True ex have "r = (tr @ ?d2, s2, Some x)" by simp
      then show ?thesis using c2 by (auto simp: well_shaped_def)
    next
      case None
      show ?thesis
      proof (cases "pending_searches s2")
        case Nil
        with 1(2) True ex None have "r = (tr @ ?d2, s2, None)" by simp
        then show ?thesis using c2 Nil by (auto simp: well_shaped_def)
      next
        case (Cons k rest)
        let ?s2' = "s2\<lparr>pending_searches := rest\<rparr>"
        obtain zs s3 e' where xp: "expand_search h ?s2' k = (zs, s3, e')"
          by (cases "expand_search h ?s2' k") auto
        let ?d3 = "?d2 @ Enter (ExpandSearch k) # map Yield zs"
        have c3: "iterations ?d3 = 1" "expansions ?d3 = 1"
          by (simp_all add: iterations_def expansions_def filter_empty_conv)
        show ?thesis
        proof (cases e')
          case (Some x)
          with 1(2) True ex None Cons xp have "r = (tr @ ?d3, s3, Some x)" by simp
          then show ?thesis using c3 by (auto simp: well_shaped_def)
        next
          case None': None
          with 1(2) True ex None Cons xp have "loop h s3 (tr @ ?d3) = Some r" by simp
          from 1(1) [OF this] have ws: "well_shaped (tr @ ?d3) r" .
          from ws obtain d where
            d: "fst r = (tr @ ?d3) @ d" "expansions d \<le> iterations d"
               "iterations d \<le> expansions d + 1"
            unfolding well_shaped_def by (elim conjE exE)
          from ws have stop: "snd (snd r) = None \<longrightarrow>
              pending_searches (fst (snd r)) = [] \<or> max_steps (fst (snd r)) \<le> current_step (fst (snd r))"
            unfolding well_shaped_def by (elim conjE)
          have f: "fst r = tr @ (?d3 @ d)" using d(1) by simp
          have i: "iterations (?d3 @ d) = 1 + iterations d"
            by (simp only: iterations_append [of ?d3 d] c3)
          have x: "expansions (?d3 @ d) = 1 + expansions d"
            by (simp only: expansions_append [of ?d3 d] c3)
          have "expansions (?d3 @ d) \<le> iterations (?d3 @ d)
                \<and> iterations (?d3 @ d) \<le> expansions (?d3 @ d) + 1"
            using d(2,3) unfolding i x by linarith
          with f have "\<exists>d. fst r = tr @ d \<and> expansions d \<le> iterations d
                  \<and> iterations d \<le> expansions d + 1"
            by blast
          with stop show ?thesis unfolding well_shaped_def by (rule conjI [rotated])
        qed
      qed
    qed
  qed
qed

text \<open>
  Claim C1. Provided no phase method moves the step counter back or raises the budget,
  the loop always ends and its body runs at most \<open>max_steps - current_step\<close> times
  from any state, so at most \<open>max_steps\<close> times in a task, however many keywords are
  queued; and once the counter has reached \<open>max_steps\<close> the loop does nothing more:
  \<open>_critique\<close> is entered on the very state the loop was reached with, its keyword
  queue untouched.
\<close>

theorem step_budget_bounds_loop:
  assumes P: "\<And>s c. keeps_budget s (plan h s c)"
      and E: "\<And>s. keeps_budget s (execute_step h s)"
      and X: "\<And>s k. keeps_budget s (expand_search h s k)"
  shows "(\<exists>d s' e. agent_loop h s tr = Some (tr @ d, s', e)
            \<and> int (iterations d) \<le> max 0 (max_steps s - current_step s))
       \<and> (max_steps s \<le> current_step s \<longrightarrow>
            after (after_loop (Some (tr, s, None)) h) Critique (critique h)
              = after (Some (tr, s, None)) Critique (critique h))
       \<and> (\<exists>tr' s' e. run h tid command = Some (tr', s', e)
            \<and> int (iterations tr') \<le> max_steps (new_state tid command))"
proof (intro conjI impI)
  from loop_terminates [OF E X, of s tr]
  show "\<exists>d s' e. agent_loop h s tr = Some (tr @ d, s', e)
            \<and> int (iterations d) \<le> max 0 (max_steps s - current_step s)"
    by blast
next
  assume "max_steps s \<le> current_step s"
  then have "after_loop (Some (tr, s, None)) h = Some (tr, s, None)"
    by (simp add: after_loop_def skipped_loop)
  then show "after (after_loop (Some (tr, s, None)) h) Critique (critique h)
              = after (Some (tr, s, None)) Critique (critique h)"
    by simp
next
  from run_bounded [OF P E X]
  show "\<exists>tr' s' e. run h tid command = Some (tr', s', e)
            \<and> int (iterations tr') \<le> max_steps (new_state tid command)" .
qed


theorem step_budget_bounds_loop_witness:
  "(\<forall>s c. keeps_budget s (plan budget_of_two s c))
   \<and> (\<forall>s. keeps_budget s (execute_step budget_of_two s))
   \<and> (\<forall>s k. keeps_budget s (expand_search budget_of_two s k))
   \<and> run budget_of_two ''task_001'' ''Monitor X'' =
       Some ([Enter Plan, Enter ExecuteStep, Enter (ExpandSearch ''k1''),
              Enter ExecuteStep, Enter (ExpandSearch ''k2''), Enter Critique, Enter Synthesize],
             (new_state ''task_001'' ''Monitor X'')\<lparr>max_steps := 2,
                pending_searches := [''k3'', ''k4'', ''k5'', ''k6''], current_step := 2\<rparr>,
             None)
   \<and> (\<exists>tr' s' e. run budget_of_two ''task_001'' ''Monitor X'' = Some (tr', s', e)
          \<and> int (iterations tr') \<le> max_steps (new_state ''task_001'' ''Monitor X''))
   \<and> max_steps ((new_state ''task_001'' ''Monitor X'')\<lparr>max_steps := 2,
          pending_searches := [''k3'', ''k4'', ''k5'', ''k6''], current_step := 2\<rparr>)
        \<le> current_step ((new_state ''task_001'' ''Monitor X'')\<lparr>max_steps := 2,
          pending_searches := [''k3'', ''k4'', ''k5'', ''k6''], current_step := 2\<rparr>)
   \<and> after (after_loop (Some ([Enter Plan], (new_state ''task_001'' ''Monitor X'')\<lparr>max_steps := 2,
          pending_searches := [''k3'', ''k4'', ''k5'', ''k6''], current_step := 2\<rparr>, None))
          budget_of_two) Critique (critique budget_of_two)
       = Some ([Enter Plan, Enter Critique], (new_state ''task_001'' ''Monitor X'')\<lparr>max_steps := 2,
          pending_searches := [''k3'', ''k4'', ''k5'', ''k6''], current_step := 2\<rparr>, None)"
proof -
  let ?spent = "(new_state ''task_001'' ''Monitor X'')\<lparr>max_steps := 2,
          pending_searches := [''k3'', ''k4'', ''k5'', ''k6''], current_step := 2\<rparr>"
  have P: "\<And>s c. keeps_budget s (plan budget_of_two s c)"
    by (simp add: keeps_budget_def budget_of_two_def)
  have E: "\<And>s. keeps_budget s (execute_step budget_of_two s)"
    by (simp add: keeps_budget_def budget_of_two_def idle_def)
  have X: "\<And>s k. keeps_budget s (expand_search budget_of_two s k)"
    by (simp add: keeps_budget_def budget_of_two_def idle_def)
  have spent: "max_steps ?spent \<le> current_step ?spent"
    by simp
  note inst = step_budget_bounds_loop [OF P E X, of ?spent "[Enter Plan]" "''task_001''" "''Monitor X''"]
  have ev: "run budget_of_two ''task_001'' ''Monitor X'' =
       Some ([Enter Plan, Enter ExecuteStep, Enter (ExpandSearch ''k1''),
              Enter ExecuteStep, Enter (ExpandSearch ''k2''), Enter Critique, Enter Synthesize],
             ?spent, None)"
    by (simp add: run_def try_body_def after_def after_loop_def budget_of_two_def idle_def
          new_state_def agent_loop.simps)
  have crit: "after (Some ([Enter Plan], ?spent, None)) Critique (critique budget_of_two)
       = Some ([Enter Plan, Enter Critique], ?spent, None)"
    by (simp add: after_def budget_of_two_def idle_def)
  from inst spent crit have
    "after (after_loop (Some ([Enter Plan], ?spent, None)) budget_of_two) Critique
        (critique budget_of_two) = Some ([Enter Plan, Enter Critique], ?spent, None)"
    by simp
  with inst P E X ev spent show ?thesis by blast
qed

lemma loop_stops_on_empty_queue:
  assumes "current_step s < max_steps s"
      and "execute_step h (s\<lparr>current_step := current_step s + 1\<rparr>) = (ys, s2, None)"
      and "pending_searches s2 = []"
  shows "agent_loop h s tr = Some (tr @ Enter ExecuteStep # map Yield ys, s2, None)"
  by (subst agent_loop.simps) (simp add: assms)

lemma loop_expands_head:
  assumes "current_step s < max_steps s"
      and "execute_step h (s\<lparr>current_step := current_step s + 1\<rparr>) = (ys, s2, None)"
      and "pending_searches s2 = k # rest"
      and "expand_search h (s2\<lparr>pending_searches := rest\<rparr>) k = (zs, s3, None)"
  shows "agent_loop h s tr
          = agent_loop h s3 (tr @ Enter ExecuteStep # map Yield ys
                                @ Enter (ExpandSearch k) # map Yield zs)"
  by (subst agent_loop.simps) (simp add: assms)

lemma critique_follows_loop:
  assumes "plan h s0 command = (ps, s, None)"
      and "agent_loop h s (Enter Plan # map Yield ps) = Some (tr', s', None)"
      and "critique h s' = (cs, s'', ec)"
  shows "try_body h s0 command
           = after (Some (tr' @ Enter Critique # map Yield cs, s'', ec)) Synthesize (synthesize h)"
  using assms by (simp add: try_body_def after_def after_loop_def)

lemma loop_total_shape:
  assumes E: "\<And>s. keeps_budget s (execute_step h s)"
      and X: "\<And>s k. keeps_budget s (expand_search h s k)"
  shows "\<exists>d s' e. agent_loop h s tr = Some (tr @ d, s', e)
           \<and> expansions d \<le> iterations d \<and> iterations d \<le> expansions d + 1
           \<and> (e = None \<longrightarrow> pending_searches s' = [] \<or> max_steps s' \<le> current_step s')"
proof -
  from loop_terminates [OF E X, of s tr] obtain d s' e where
    r: "agent_loop h s tr = Some (tr @ d, s', e)" by blast
  from loop_shape [OF r] have
    "expansions d \<le> iterations d \<and> iterations d \<le> expansions d + 1
     \<and> (e = None \<longrightarrow> pending_searches s' = [] \<or> max_steps s' \<le> current_step s')"
    by (simp add: well_shaped_def)
  with r show ?thesis by blast
qed

text \<open>
  Claim C7. The loop stops, and \<open>_critique\<close> is the next phase entered, on the state
  the loop ended with, in both cases: when the step counter has reached the budget the
  loop returns at once, and when the executed step leaves the queue empty it returns
  after that step without an expansion. When the executed step leaves a keyword queued,
  exactly the head of the queue is removed, \<open>_expand_search\<close> is called once, on that
  keyword and on the state with the rest of the queue, and the loop is back at its head.
  With phase methods that keep the budget the loop always returns, with no more
  expansions than iterations and at most one iteration without an expansion.
\<close>

theorem expansion_takes_one_keyword:
  "(max_steps s \<le> current_step s \<longrightarrow> agent_loop h s tr = Some (tr, s, None))
   \<and> (current_step s < max_steps s
        \<and> execute_step h (s\<lparr>current_step := current_step s + 1\<rparr>) = (ys, s2, None)
        \<and> pending_searches s2 = []
      \<longrightarrow> agent_loop h s tr = Some (tr @ Enter ExecuteStep # map Yield ys, s2, None))
   \<and> (current_step s < max_steps s
        \<and> execute_step h (s\<lparr>current_step := current_step s + 1\<rparr>) = (ys, s2, None)
        \<and> pending_searches s2 = k # rest
        \<and> expand_search h (s2\<lparr>pending_searches := rest\<rparr>) k = (zs, s3, None)
      \<longrightarrow> agent_loop h s tr
            = agent_loop h s3 (tr @ Enter ExecuteStep # map Yield ys
                                  @ Enter (ExpandSearch k) # map Yield zs))
   \<and> (plan h s0 command = (ps, s, None)
        \<and> agent_loop h s (Enter Plan # map Yield ps) = Some (tr', s', None)
        \<and> critique h s' = (cs, s'', ec)
      \<longrightarrow> try_body h s0 command
            = after (Some (tr' @ Enter Critique # map Yield cs, s'', ec))
                Synthesize (synthesize h))
   \<and> ((\<forall>s. keeps_budget s (execute_step h s)) \<and> (\<forall>s k. keeps_budget s (expand_search h s k))
      \<longrightarrow> (\<exists>d s' e. agent_loop h s tr = Some (tr @ d, s', e)
             \<and> expansions d \<le> iterations d \<and> iterations d \<le> expansions d + 1
             \<and> (e = None \<longrightarrow> pending_searches s' = [] \<or> max_steps s' \<le> current_step s')))"
proof (intro conjI impI)
  assume "max_steps s \<le> current_step s"
  then show "agent_loop h s tr = Some (tr, s, None)" by (rule skipped_loop)
next
  assume "current_step s < max_steps s
        \<and> execute_step h (s\<lparr>current_step := current_step s + 1\<rparr>) = (ys, s2, None)
        \<and> pending_searches s2 = []"
  then show "agent_loop h s tr = Some (tr @ Enter ExecuteStep # map Yield ys, s2, None)"
    using loop_stops_on_empty_queue [of s h ys s2 tr] by blast
next
  assume "current_step s < max_steps s
        \<and> execute_step h (s\<lparr>current_step := current_step s + 1\<rparr>) = (ys, s2, None)
        \<and> pending_searches s2 = k # rest
        \<and> expand_search h (s2\<lparr>pending_searches := rest\<rparr>) k = (zs, s3, None)"
  then show "agent_loop h s tr
            = agent_loop h s3 (tr @ Enter ExecuteStep # map Yield ys
                                  @ Enter (ExpandSearch k) # map Yield zs)"
    using loop_expands_head [of s h ys s2 k rest zs s3 tr] by blast
next
  assume "plan h s0 command = (ps, s, None)
        \<and> agent_loop h s (Enter Plan # map Yield ps) = Some (tr', s', None)
        \<and> critique h s' = (cs, s'', ec)"
  then show "try_body h s0 command
            = after (Some (tr' @ Enter Critique # map Yield cs, s'', ec))
                Synthesize (synthesize h)"
    using critique_follows_loop [of h s0 command ps s tr' s' cs s'' ec] by blast
next
  assume "(\<forall>s. keeps_budget s (execute_step h s)) \<and> (\<forall>s k. keeps_budget s (expand_search h s k))"
  then show "\<exists>d s' e. agent_loop h s tr = Some (tr @ d, s', e)
             \<and> expansions d \<le> iterations d \<and> iterations d \<le> expansions d + 1
             \<and> (e = None \<longrightarrow> pending_searches s' = [] \<or> max_steps s' \<le> current_step s')"
    using loop_total_shape [of h s tr] by blast
qed


theorem expansion_takes_one_keyword_witness:
  "max_steps ((new_state ''task_002'' ''Monitor X'')\<lparr>current_step := 10\<rparr>)
     \<le> current_step ((new_state ''task_002'' ''Monitor X'')\<lparr>current_step := 10\<rparr>)
   \<and> agent_loop discovers_Y ((new_state ''task_002'' ''Monitor X'')\<lparr>current_step := 10\<rparr>) []
       = Some ([], (new_state ''task_002'' ''Monitor X'')\<lparr>current_step := 10\<rparr>, None)
   \<and> execute_step discovers_Y ((new_state ''task_002'' ''Monitor X'')\<lparr>current_step := 1\<rparr>)
       = ([], (new_state ''task_002'' ''Monitor X'')\<lparr>current_step := 1, pending_searches := [''Y'']\<rparr>, None)
   \<and> expand_search discovers_Y
         ((new_state ''task_002'' ''Monitor X'')\<lparr>current_step := 1, pending_searches := []\<rparr>) ''Y''
       = ([], (new_state ''task_002'' ''Monitor X'')\<lparr>current_step := 1, pending_searches := []\<rparr>, None)
   \<and> agent_loop discovers_Y (new_state ''task_002'' ''Monitor X'') [Enter Plan]
       = agent_loop discovers_Y
           ((new_state ''task_002'' ''Monitor X'')\<lparr>current_step := 1, pending_searches := []\<rparr>)
           [Enter Plan, Enter ExecuteStep, Enter (ExpandSearch ''Y'')]
   \<and> execute_step discovers_Y
         ((new_state ''task_002'' ''Monitor X'')\<lparr>current_step := 2, pending_searches := []\<rparr>)
       = ([], (new_state ''task_002'' ''Monitor X'')\<lparr>current_step := 2, pending_searches := []\<rparr>, None)
   \<and> agent_loop discovers_Y
         ((new_state ''task_002'' ''Monitor X'')\<lparr>current_step := 1, pending_searches := []\<rparr>)
         [Enter Plan, Enter ExecuteStep, Enter (ExpandSearch ''Y'')]
       = Some ([Enter Plan, Enter ExecuteStep, Enter (ExpandSearch ''Y''), Enter ExecuteStep],
               (new_state ''task_002'' ''Monitor X'')\<lparr>current_step := 2, pending_searches := []\<rparr>, None)
   \<and> try_body discovers_Y (new_state ''task_002'' ''Monitor X'') ''Monitor X''
       = Some ([Enter Plan, Enter ExecuteStep, Enter (ExpandSearch ''Y''), Enter ExecuteStep,
                Enter Critique, Enter Synthesize],
               (new_state ''task_002'' ''Monitor X'')\<lparr>current_step := 2, pending_searches := []\<rparr>, None)
   \<and> (\<forall>s. keeps_budget s (execute_step discovers_Y s))
   \<and> (\<forall>s k. keeps_budget s (expand_search discovers_Y s k))
   \<and> (\<exists>d s' e. agent_loop discovers_Y (new_state ''task_002'' ''Monitor X'') [] = Some ([] @ d, s', e)
         \<and> expansions d \<le> iterations d \<and> iterations d \<le> expansions d + 1
         \<and> (e = None \<longrightarrow> pending_searches s' = [] \<or> max_steps s' \<le> current_step s'))"
proof -
  let ?s = "new_state ''task_002'' ''Monitor X''"
  let ?spent = "?s\<lparr>current_step := 10\<rparr>"
  let ?s2 = "?s\<lparr>current_step := 1, pending_searches := [''Y'']\<rparr>"
  let ?s3 = "?s\<lparr>current_step := 1, pending_searches := []\<rparr>"
  let ?fin = "?s\<lparr>current_step := 2, pending_searches := []\<rparr>"
  let ?tr3 = "[Enter Plan, Enter ExecuteStep, Enter (ExpandSearch ''Y'')]"
  let ?tr4 = "[Enter Plan, Enter ExecuteStep, Enter (ExpandSearch ''Y''), Enter ExecuteStep]"
  have spent: "max_steps ?spent \<le> current_step ?spent"
    by (simp add: new_state_def)
  have c: "current_step ?s < max_steps ?s"
    by (simp add: new_state_def)
  have ex: "execute_step discovers_Y (?s\<lparr>current_step := current_step ?s + 1\<rparr>) = ([], ?s2, None)"
    by (simp add: discovers_Y_def new_state_def)
  have q: "pending_searches ?s2 = ''Y'' # []"
    by simp
  have xp: "expand_search discovers_Y (?s2\<lparr>pending_searches := []\<rparr>) ''Y'' = ([], ?s3, None)"
    by (simp add: discovers_Y_def idle_def)
  have c3: "current_step ?s3 < max_steps ?s3"
    by (simp add: new_state_def)
  have ex3: "execute_step discovers_Y (?s3\<lparr>current_step := current_step ?s3 + 1\<rparr>) = ([], ?fin, None)"
    by (simp add: discovers_Y_def new_state_def)
  have q3: "pending_searches ?fin = []"
    by simp
  have pl: "plan discovers_Y ?s ''Monitor X'' = ([], ?s, None)"
    by (simp add: discovers_Y_def idle_def)
  have cr: "critique discovers_Y ?fin = ([], ?fin, None)"
    by (simp add: discovers_Y_def idle_def)
  have E: "\<forall>s. keeps_budget s (execute_step discovers_Y s)"
    by (simp add: keeps_budget_def discovers_Y_def)
  have X: "\<forall>s k. keeps_budget s (expand_search discovers_Y s k)"
    by (simp add: keeps_budget_def discovers_Y_def idle_def)
  note at_budget = expansion_takes_one_keyword
    [where s = ?spent and h = discovers_Y and tr = "[]"]
  note first = expansion_takes_one_keyword
    [where s = ?s and h = discovers_Y and tr = "[Enter Plan]" and ys = "[]" and ?s2.0 = ?s2
       and k = "''Y''" and rest = "[]" and zs = "[]" and ?s3.0 = ?s3]
  note second = expansion_takes_one_keyword
    [where s = ?s3 and h = discovers_Y and tr = ?tr3 and ys = "[]" and ?s2.0 = ?fin]
  from at_budget spent have r1: "agent_loop discovers_Y ?spent [] = Some ([], ?spent, None)"
    by blast
  from first c ex q xp have r3:
    "agent_loop discovers_Y ?s [Enter Plan] = agent_loop discovers_Y ?s3 ?tr3"
    by simp
  from second c3 ex3 q3 have r2: "agent_loop discovers_Y ?s3 ?tr3 = Some (?tr4, ?fin, None)"
    by simp
  from r3 r2 have whole: "agent_loop discovers_Y ?s (Enter Plan # map Yield []) = Some (?tr4, ?fin, None)"
    by simp
  note fall = expansion_takes_one_keyword
    [where h = discovers_Y and ?s0.0 = ?s and command = "''Monitor X''" and ps = "[]" and s = ?s
       and tr' = ?tr4 and s' = ?fin and cs = "[]" and s'' = ?fin and ec = None]
  from fall pl whole cr have
    "try_body discovers_Y ?s ''Monitor X''
       = after (Some (?tr4 @ Enter Critique # map Yield [], ?fin, None)) Synthesize (synthesize discovers_Y)"
    by blast
  then have r4: "try_body discovers_Y ?s ''Monitor X''
       = Some ([Enter Plan, Enter ExecuteStep, Enter (ExpandSearch ''Y''), Enter ExecuteStep,
                Enter Critique, Enter Synthesize], ?fin, None)"
    by (simp add: after_def discovers_Y_def idle_def)
  note total = expansion_takes_one_keyword [where s = ?s and h = discovers_Y and tr = "[]"]
  from total E X have r5: "\<exists>d s' e. agent_loop discovers_Y ?s [] = Some ([] @ d, s', e)
         \<and> expansions d \<le> iterations d \<and> iterations d \<le> expansions d + 1
         \<and> (e = None \<longrightarrow> pending_searches s' = [] \<or> max_steps s' \<le> current_step s')"
    by blast
  have ex': "execute_step discovers_Y (?s\<lparr>current_step := 1\<rparr>) = ([], ?s2, None)"
    using ex by (simp add: new_state_def)
  have xp': "expand_search discovers_Y ?s3 ''Y'' = ([], ?s3, None)"
    using xp by simp
  have ex3': "execute_step discovers_Y ?fin = ([], ?fin, None)"
    by (simp add: discovers_Y_def new_state_def)
  from spent r1 ex' xp' r3 ex3' r2 r4 E X r5 show ?thesis
    by (intro conjI)
qed

subsection \<open>Recovery strategies\<close>




subsection \<open>The crawler's request with retry\<close>

text \<open>
  The retry is capped: at most \<open>max_retries\<close> sleeps, whatever the world answers.
\<close>

lemma attempts_sleeps:
  "length (filter (\<lambda>a. \<exists>t. a = Sleep t) (snd (attempts world i n acts)))
     \<le> length (filter (\<lambda>a. \<exists>t. a = Sleep t) acts) + n"
proof (induction n arbitrary: i acts)
  case 0
  show ?case by simp
next
  case (Suc n)
  obtain proxy r where w: "world i = (proxy, r)"
    by (cases "world i") auto
  show ?case
  proof (cases r)
    case (Response status body)
    with w Suc [of "i + 1" "acts @ [MarkFailed proxy, Sleep (2 ^ i)]"] show ?thesis
      by auto
  next
    case (Raises x)
    with w Suc [of "i + 1" "acts @ [Sleep (2 ^ i)]"] show ?thesis
      by auto
  qed
qed

text \<open>
  Claim C4 at the input that decides it: three answers of status 403 in a row. The three
  attempts are made, with sleeps of 1, 2 and 4 seconds, and then the function returns
  \<open>None\<close>: no exception reaches the caller, so nothing tells it that the request was
  rate limited.
\<close>

theorem three_rate_limited_answers_return_None:
  "request_with_retry (\<lambda>i. (''proxy_1'', Response 403 ''{}'')) 3
     = (ReturnNone,
        [MarkFailed ''proxy_1'', Sleep 1, MarkFailed ''proxy_1'', Sleep 2,
         MarkFailed ''proxy_1'', Sleep 4])"
  by (simp add: request_with_retry_def numeral_3_eq_3)

subsection \<open>Model routing\<close>




subsection \<open>The event stream\<close>

lemma split_nl_nonempty: "split_nl s \<noteq> []"
  by (induction s) (auto simp: cons_hd_def split: list.splits)

lemma split_nl_no_newline: "CHR 0x0A \<notin> set l \<Longrightarrow> split_nl l = [l]"
  by (induction l) (auto simp: cons_hd_def)

lemma split_nl_line: "CHR 0x0A \<notin> set l \<Longrightarrow> split_nl (l @ CHR 0x0A # rest) = l # split_nl rest"
  by (induction l) (auto simp: cons_hd_def)

lemma last_split_nl: "CHR 0x0A \<notin> set (last (split_nl s))"
proof (induction s)
  case Nil
  show ?case by simp
next
  case (Cons c s)
  obtain l rest where sp: "split_nl s = l # rest"
    using split_nl_nonempty [of s] by (cases "split_nl s") auto
  with Cons show ?case
    by (cases rest) (auto simp: cons_hd_def)
qed

lemma split_nl_append:
  "split_nl (a @ b) = butlast (split_nl a) @ split_nl (last (split_nl a) @ b)"
proof (induction a)
  case Nil
  show ?case by simp
next
  case (Cons c a)
  obtain l rest where sp: "split_nl a = l # rest"
    using split_nl_nonempty [of a] by (cases "split_nl a") auto
  show ?case
  proof (cases "c = CHR 0x0A")
    case True
    with Cons sp show ?thesis by simp
  next
    case False
    show ?thesis
    proof (cases rest)
      case Nil
      with Cons sp False show ?thesis by (simp add: cons_hd_def)
    next
      case (Cons r rs)
      with Cons.IH sp False show ?thesis by (simp add: cons_hd_def)
    qed
  qed
qed

lemma butlast_split_nl_append:
  "butlast (split_nl (a @ b)) = butlast (split_nl a) @ butlast (split_nl (last (split_nl a) @ b))"
  by (subst split_nl_append) (simp add: butlast_append split_nl_nonempty)

lemma last_split_nl_append:
  "last (split_nl (a @ b)) = last (split_nl (last (split_nl a) @ b))"
  by (subst split_nl_append) (simp add: split_nl_nonempty)

lemma read_loop_lines:
  "CHR 0x0A \<notin> set buffer \<Longrightarrow>
   read_loop parse buffer chunks
     = concat (map (handle_line parse) (butlast (split_nl (buffer @ concat chunks))))"
proof (induction chunks arbitrary: buffer)
  case Nil
  then show ?case by (simp add: split_nl_no_newline)
next
  case (Cons chunk chunks)
  have "read_loop parse (last (split_nl (buffer @ chunk))) chunks
          = concat (map (handle_line parse)
              (butlast (split_nl (last (split_nl (buffer @ chunk)) @ concat chunks))))"
    by (rule Cons.IH) (rule last_split_nl)
  moreover have "butlast (split_nl ((buffer @ chunk) @ concat chunks))
          = butlast (split_nl (buffer @ chunk))
              @ butlast (split_nl (last (split_nl (buffer @ chunk)) @ concat chunks))"
    by (rule butlast_split_nl_append)
  ultimately show ?case
    by (simp add: Let_def)
qed

lemma handle_event_line: "handle_line parse (''event:'' @ kind) = []"
  by (simp add: handle_line_def)

lemma handle_data_line: "handle_line parse (''data:'' @ d) = handle_data parse (trim d)"
  by (simp add: handle_line_def)

lemma handle_blank_line: "blank = [] \<or> blank = [CHR 0x0D] \<Longrightarrow> handle_line parse blank = []"
  by (auto simp: handle_line_def)

lemma split_nl_event:
  assumes "CHR 0x0A \<notin> set kind" and "CHR 0x0A \<notin> set d" and "CHR 0x0A \<notin> set blank"
  shows "split_nl (framed_event kind d blank @ rest)
           = (''event:'' @ kind) # (''data:'' @ d) # blank # split_nl rest"
proof -
  have e: "CHR 0x0A \<notin> set (''event:'' @ kind)" using assms(1) by simp
  have dd: "CHR 0x0A \<notin> set (''data:'' @ d)" using assms(2) by simp
  have "framed_event kind d blank @ rest
          = (''event:'' @ kind) @ CHR 0x0A # ((''data:'' @ d) @ CHR 0x0A # (blank @ CHR 0x0A # rest))"
    by (simp add: framed_event_def)
  then show ?thesis
    by (simp only: split_nl_line [OF e] split_nl_line [OF dd] split_nl_line [OF assms(3)])
qed

text \<open>The lines of a stream of events, and what the read loop makes of them.\<close>

lemma lines_of_events:
  assumes "\<forall>(kind, d, blank) \<in> set evs. CHR 0x0A \<notin> set kind \<and> CHR 0x0A \<notin> set d
             \<and> (blank = [] \<or> blank = [CHR 0x0D])"
  shows "concat (map (handle_line parse)
           (butlast (split_nl (concat (map (\<lambda>(kind, d, blank). framed_event kind d blank) evs) @ rest))))
         = concat (map (\<lambda>(kind, d, blank). handle_data parse (trim d)) evs)
             @ concat (map (handle_line parse) (butlast (split_nl rest)))"
  using assms
proof (induction evs)
  case Nil
  show ?case by simp
next
  case (Cons ev evs)
  obtain kind d blank where ev: "ev = (kind, d, blank)" by (cases ev)
  with Cons.prems have nl: "CHR 0x0A \<notin> set kind" "CHR 0x0A \<notin> set d"
    and bl: "blank = [] \<or> blank = [CHR 0x0D]"
    by auto
  from bl have nb: "CHR 0x0A \<notin> set blank" by auto
  from Cons have IH: "concat (map (handle_line parse)
           (butlast (split_nl (concat (map (\<lambda>(kind, d, blank). framed_event kind d blank) evs) @ rest))))
         = concat (map (\<lambda>(kind, d, blank). handle_data parse (trim d)) evs)
             @ concat (map (handle_line parse) (butlast (split_nl rest)))"
    by simp
  let ?tail = "concat (map (\<lambda>(kind, d, blank). framed_event kind d blank) evs) @ rest"
  have "split_nl (concat (map (\<lambda>(kind, d, blank). framed_event kind d blank) (ev # evs)) @ rest)
          = (''event:'' @ kind) # (''data:'' @ d) # blank # split_nl ?tail"
    using split_nl_event [OF nl nb, of ?tail] by (simp add: ev)
  then have "butlast (split_nl (concat (map (\<lambda>(kind, d, blank). framed_event kind d blank) (ev # evs)) @ rest))
          = (''event:'' @ kind) # (''data:'' @ d) # blank # butlast (split_nl ?tail)"
    by (simp add: split_nl_nonempty)
  then show ?case
    using IH by (simp only: list.map concat.simps handle_event_line handle_data_line
                   handle_blank_line [OF bl] ev prod.case append_Nil append_assoc)
qed

lemma stream_lines:
  assumes "response_ok status"
  shows "stream_callbacks parse (Responded status status_text (Body chunks None))
         = concat (map (handle_line parse) (butlast (split_nl (concat chunks))))"
proof -
  have "read_loop parse [] chunks
          = concat (map (handle_line parse) (butlast (split_nl ([] @ concat chunks))))"
    by (rule read_loop_lines) simp
  with assms show ?thesis
    by (simp add: stream_callbacks_def)
qed

lemma read_events:
  assumes "concat chunks = concat (map (\<lambda>(kind, d, blank). framed_event kind d blank) evs)"
      and "\<forall>(kind, d, blank) \<in> set evs. CHR 0x0A \<notin> set kind \<and> CHR 0x0A \<notin> set d
             \<and> (blank = [] \<or> blank = [CHR 0x0D])"
  shows "read_loop parse [] chunks
           = concat (map (\<lambda>(kind, d, blank). handle_data parse (trim d)) evs)"
proof -
  have "read_loop parse [] chunks
          = concat (map (handle_line parse) (butlast (split_nl ([] @ concat chunks))))"
    by (rule read_loop_lines) simp
  also have "\<dots> = concat (map (handle_line parse)
           (butlast (split_nl (concat (map (\<lambda>(kind, d, blank). framed_event kind d blank) evs) @ []))))"
    by (simp add: assms(1))
  also have "\<dots> = concat (map (\<lambda>(kind, d, blank). handle_data parse (trim d)) evs)
             @ concat (map (handle_line parse) (butlast (split_nl [])))"
    by (rule lines_of_events [OF assms(2)])
  finally show ?thesis by simp
qed

lemma thoughts_callbacks:
  assumes "\<forall>(kind, d, blank, p) \<in> set thoughts. parse (trim d) = Some p \<and> trim d \<noteq> []
              \<and> truthy (field p ''step_id'')"
  shows "concat (map (\<lambda>(kind, d, blank). handle_data parse (trim d))
                   (map (\<lambda>(kind, d, blank, p). (kind, d, blank)) thoughts))
         = concat (map (\<lambda>(kind, d, blank, p). if thoughtToLog_returns p then [OnThought p] else [])
                     thoughts)"
  using assms
proof (induction thoughts)
  case Nil
  show ?case by simp
next
  case (Cons t thoughts)
  obtain kind d blank p where t: "t = (kind, d, blank, p)" by (cases t)
  with Cons.prems have h: "parse (trim d) = Some p" "trim d \<noteq> []" "truthy (field p ''step_id'')"
    by auto
  from h(3) have "p \<noteq> JNull" by (auto simp: field_def)
  with h have "handle_data parse (trim d) = (if thoughtToLog_returns p then [OnThought p] else [])"
    by (simp add: handle_data_def dispatch_def)
  with Cons t show ?case by simp
qed

lemma stream_of_events:
  assumes ok: "response_ok status"
      and wire: "concat chunks
                   = concat (map (\<lambda>(kind, d, blank, p). framed_event kind d blank) thoughts)
                       @ framed_event kind d blank"
      and th: "\<forall>(kind, d, blank, p) \<in> set thoughts.
                 CHR 0x0A \<notin> set kind \<and> CHR 0x0A \<notin> set d \<and> (blank = [] \<or> blank = [CHR 0x0D])
                 \<and> trim d \<noteq> [] \<and> parse (trim d) = Some p \<and> truthy (field p ''step_id'')"
      and nl: "CHR 0x0A \<notin> set kind" "CHR 0x0A \<notin> set d" "blank = [] \<or> blank = [CHR 0x0D]"
      and last: "trim d \<noteq> []" "parse (trim d) = Some p" "\<not> truthy (field p ''step_id'')"
  shows "stream_callbacks parse (Responded status status_text (Body chunks None))
         = concat (map (\<lambda>(kind, d, blank, p). if thoughtToLog_returns p then [OnThought p] else [])
                     thoughts)
           @ (if truthy (field p ''task_id'') \<and> field p ''status'' = Some (JStr ''completed'')
              then [OnComplete (TaskResult (field p ''task_id'')
                                  (or_else (field p ''total_tokens'') (Some (JNum 0)))
                                  (field p ''status''))]
              else if truthy (field p ''error'') \<and> converts (field p ''error'')
              then [OnError (ErrorOf (field p ''error''))]
              else [])"
proof -
  let ?evs = "map (\<lambda>(kind, d, blank, p). (kind, d, blank)) thoughts @ [(kind, d, blank)]"
  let ?calls = "concat (map (\<lambda>(kind, d, blank, p).
                   if thoughtToLog_returns p then [OnThought p] else []) thoughts)"
  have w: "concat chunks = concat (map (\<lambda>(kind, d, blank). framed_event kind d blank) ?evs)"
    using wire by (simp add: comp_def case_prod_unfold)
  have f: "\<forall>(kind, d, blank) \<in> set ?evs. CHR 0x0A \<notin> set kind \<and> CHR 0x0A \<notin> set d
             \<and> (blank = [] \<or> blank = [CHR 0x0D])"
    using th nl by auto
  have t: "\<forall>(kind, d, blank, p) \<in> set thoughts. parse (trim d) = Some p \<and> trim d \<noteq> []
              \<and> truthy (field p ''step_id'')"
    using th by auto
  have "read_loop parse [] chunks
          = concat (map (\<lambda>(kind, d, blank). handle_data parse (trim d)) ?evs)"
    by (rule read_events [OF w f])
  also have "\<dots> = ?calls @ handle_data parse (trim d)"
    using thoughts_callbacks [OF t] by simp
  also have "handle_data parse (trim d) = dispatch p"
    using last by (simp add: handle_data_def)
  finally have "read_loop parse [] chunks = ?calls @ dispatch p" .
  moreover have "dispatch p
         = (if truthy (field p ''task_id'') \<and> field p ''status'' = Some (JStr ''completed'')
              then [OnComplete (TaskResult (field p ''task_id'')
                                  (or_else (field p ''total_tokens'') (Some (JNum 0)))
                                  (field p ''status''))]
              else if truthy (field p ''error'') \<and> converts (field p ''error'')
              then [OnError (ErrorOf (field p ''error''))]
              else [])"
    using last(3) by (auto simp: dispatch_def field_def)
  ultimately show ?thesis
    using ok by (simp add: stream_callbacks_def)
qed

lemma texts_one_line:
  "CHR 0x0A \<notin> set thought_1_text" "CHR 0x0A \<notin> set thought_2_text"
  "CHR 0x0A \<notin> set documented_complete_text" "CHR 0x0A \<notin> set completed_text"
  "CHR 0x0A \<notin> set unprintable_thought_text"
  by (simp_all add: thought_1_text_def thought_2_text_def documented_complete_text_def
        completed_text_def unprintable_thought_text_def)

text \<open>Trimming the example texts: a brace is kept, a space and a carriage return go.\<close>

lemma strip_brace: "strip white_space (CHR ''{'' # s) = CHR ''{'' # s"
  by (simp add: strip.simps [of _ "CHR ''{'' # s"] white_space_def)

lemma strip_rev_brace: "strip (map rev white_space) (CHR ''}'' # s) = CHR ''}'' # s"
  by (simp add: strip.simps [of _ "CHR ''}'' # s"] white_space_def)

lemma strip_space: "strip white_space (CHR 0x20 # s) = strip white_space s"
  by (simp add: strip.simps [of _ "CHR 0x20 # s"] white_space_def)

lemma strip_rev_return: "strip (map rev white_space) (CHR 0x0D # s) = strip (map rev white_space) s"
  by (simp add: strip.simps [of _ "CHR 0x0D # s"] white_space_def)

lemma texts_trim:
  "trim (CHR 0x20 # thought_1_text) = thought_1_text"
  "trim (CHR 0x20 # thought_2_text @ [CHR 0x0D]) = thought_2_text"
  "trim (CHR 0x20 # documented_complete_text) = documented_complete_text"
  "trim (CHR 0x20 # completed_text) = completed_text"
  "trim unprintable_thought_text = unprintable_thought_text"
  by (simp_all add: trim_def strip_brace strip_rev_brace strip_space strip_rev_return
        thought_1_text_def thought_2_text_def documented_complete_text_def completed_text_def
        unprintable_thought_text_def)

lemma texts_parse:
  "parse_examples thought_1_text = Some thought_1"
  "parse_examples thought_2_text = Some thought_2"
  "parse_examples documented_complete_text = Some documented_complete"
  "parse_examples completed_text = Some completed"
  "parse_examples unprintable_thought_text = Some unprintable_thought"
  by (simp_all add: parse_examples_def thought_1_text_def thought_2_text_def
        documented_complete_text_def completed_text_def unprintable_thought_text_def)

lemma texts_nonempty:
  "thought_1_text \<noteq> []" "thought_2_text \<noteq> []"
  "documented_complete_text \<noteq> []" "completed_text \<noteq> []"
  "unprintable_thought_text \<noteq> []"
  by (simp_all add: thought_1_text_def thought_2_text_def documented_complete_text_def
        completed_text_def unprintable_thought_text_def)

lemma thoughts_convert:
  "thoughtToLog_returns thought_1" "thoughtToLog_returns thought_2"
  "\<not> thoughtToLog_returns unprintable_thought"
  by (simp_all add: thoughtToLog_returns_def thought_1_def thought_2_def unprintable_thought_def
        field_def converts_def)

lemma thoughts_step_id:
  "truthy (field thought_1 ''step_id'')" "truthy (field thought_2 ''step_id'')"
  "truthy (field unprintable_thought ''step_id'')"
  "\<not> truthy (field documented_complete ''step_id'')" "\<not> truthy (field completed ''step_id'')"
  by (simp_all add: thought_1_def thought_2_def unprintable_thought_def documented_complete_def
        completed_def field_def)

text \<open>
  Claim C2, as stated, fails at the \<open>complete\<close> event of the API document, which
  carries the task id, the item count and the total tokens and no status: the service
  asks for \<open>status === 'completed'\<close>, so after the thought event nothing is called,
  \<open>onComplete\<close> least of all.
\<close>

theorem documented_complete_event_is_missed:
  "stream_callbacks parse_examples
     (Responded 200 ''OK''
        (Body [framed_event '' thought'' ('' '' @ thought_1_text) [],
               framed_event '' complete'' ('' '' @ documented_complete_text) []]
              None))
   = [OnThought thought_1]"
proof -
  let ?chunks = "[framed_event '' thought'' ('' '' @ thought_1_text) [],
                  framed_event '' complete'' ('' '' @ documented_complete_text) []]"
  let ?thoughts = "[('' thought'', '' '' @ thought_1_text, [], thought_1)]"
  have ok: "response_ok 200" by (simp add: response_ok_def)
  have wire: "concat ?chunks
       = concat (map (\<lambda>(kind, d, blank, p). framed_event kind d blank) ?thoughts)
           @ framed_event '' complete'' ('' '' @ documented_complete_text) []"
    by simp
  have th: "\<forall>(kind, d, blank, p) \<in> set ?thoughts.
              CHR 0x0A \<notin> set kind \<and> CHR 0x0A \<notin> set d \<and> (blank = [] \<or> blank = [CHR 0x0D])
              \<and> trim d \<noteq> [] \<and> parse_examples (trim d) = Some p \<and> truthy (field p ''step_id'')"
    by (simp add: texts_one_line texts_trim texts_parse texts_nonempty thoughts_step_id)
  have kind: "CHR 0x0A \<notin> set '' complete''" by simp
  have d: "CHR 0x0A \<notin> set ('' '' @ documented_complete_text)"
    by (simp add: texts_one_line)
  have blank: "[] = [] \<or> [] = [CHR 0x0D]" by simp
  have ne: "trim ('' '' @ documented_complete_text) \<noteq> []"
    by (simp add: texts_trim texts_nonempty)
  have p3: "parse_examples (trim ('' '' @ documented_complete_text)) = Some documented_complete"
    by (simp add: texts_trim texts_parse)
  from stream_of_events [OF ok wire th kind d blank ne p3 thoughts_step_id(4), of "''OK''"]
  show ?thesis
    by (simp add: documented_complete_def field_def thoughts_convert)
qed

text \<open>
  Claim C2, amended. For every event stream, however its text is cut into chunks, the
  callbacks are those of its complete lines, one line after the other. When the stream
  is a sequence of thought events followed by one terminal event (each an \<open>event:\<close>
  line, a \<open>data:\<close> line and a separating line, ended by line feeds with or without a
  carriage return, the data trimmed of the white space of JavaScript): each thought
  event (a payload with a truthy \<open>step_id\<close>) calls \<open>onThought\<close> once, in order,
  unless a member that \<open>thoughtToLog\<close> prints cannot be converted, in which case the
  event is dropped; then the terminal event calls \<open>onComplete\<close> exactly once when its
  payload has a truthy \<open>task_id\<close> and the status \<open>completed\<close> (handing on task id,
  total tokens or 0, and status, not the item count), and otherwise calls \<open>onError\<close>
  exactly once when its payload has a truthy \<open>error\<close> that can be converted to a
  message; else it calls nothing.
\<close>

theorem thoughts_then_terminal_event:
  assumes "response_ok status"
  shows "stream_callbacks parse (Responded status status_text (Body chunks None))
           = concat (map (handle_line parse) (butlast (split_nl (concat chunks))))
         \<and> (concat chunks
               = concat (map (\<lambda>(kind, d, blank, p). framed_event kind d blank) thoughts)
                   @ framed_event kind d blank
             \<and> (\<forall>(kind, d, blank, p) \<in> set thoughts.
                   CHR 0x0A \<notin> set kind \<and> CHR 0x0A \<notin> set d \<and> (blank = [] \<or> blank = [CHR 0x0D])
                   \<and> trim d \<noteq> [] \<and> parse (trim d) = Some p \<and> truthy (field p ''step_id''))
             \<and> CHR 0x0A \<notin> set kind \<and> CHR 0x0A \<notin> set d \<and> (blank = [] \<or> blank = [CHR 0x0D])
             \<and> trim d \<noteq> [] \<and> parse (trim d) = Some p \<and> \<not> truthy (field p ''step_id'')
             \<longrightarrow> stream_callbacks parse (Responded status status_text (Body chunks None))
                 = concat (map (\<lambda>(kind, d, blank, p).
                             if thoughtToLog_returns p then [OnThought p] else []) thoughts)
                   @ (if truthy (field p ''task_id'')
                         \<and> field p ''status'' = Some (JStr ''completed'')
                      then [OnComplete (TaskResult (field p ''task_id'')
                                          (or_else (field p ''total_tokens'') (Some (JNum 0)))
                                          (field p ''status''))]
                      else if truthy (field p ''error'') \<and> converts (field p ''error'')
                      then [OnError (ErrorOf (field p ''error''))]
                      else []))"
proof (intro conjI impI)
  show "stream_callbacks parse (Responded status status_text (Body chunks None))
          = concat (map (handle_line parse) (butlast (split_nl (concat chunks))))"
    using assms by (rule stream_lines)
next
  assume h: "concat chunks
               = concat (map (\<lambda>(kind, d, blank, p). framed_event kind d blank) thoughts)
                   @ framed_event kind d blank
             \<and> (\<forall>(kind, d, blank, p) \<in> set thoughts.
                   CHR 0x0A \<notin> set kind \<and> CHR 0x0A \<notin> set d \<and> (blank = [] \<or> blank = [CHR 0x0D])
                   \<and> trim d \<noteq> [] \<and> parse (trim d) = Some p \<and> truthy (field p ''step_id''))
             \<and> CHR 0x0A \<notin> set kind \<and> CHR 0x0A \<notin> set d \<and> (blank = [] \<or> blank = [CHR 0x0D])
             \<and> trim d \<noteq> [] \<and> parse (trim d) = Some p \<and> \<not> truthy (field p ''step_id'')"
  from h have wire: "concat chunks
               = concat (map (\<lambda>(kind, d, blank, p). framed_event kind d blank) thoughts)
                   @ framed_event kind d blank"
    by (elim conjE)
  from h have th: "\<forall>(kind, d, blank, p) \<in> set thoughts.
                   CHR 0x0A \<notin> set kind \<and> CHR 0x0A \<notin> set d \<and> (blank = [] \<or> blank = [CHR 0x0D])
                   \<and> trim d \<noteq> [] \<and> parse (trim d) = Some p \<and> truthy (field p ''step_id'')"
    by (elim conjE)
  from h have nl: "CHR 0x0A \<notin> set kind" "CHR 0x0A \<notin> set d" "blank = [] \<or> blank = [CHR 0x0D]"
    and last: "trim d \<noteq> []" "parse (trim d) = Some p" "\<not> truthy (field p ''step_id'')"
    by blast+
  show "stream_callbacks parse (Responded status status_text (Body chunks None))
                 = concat (map (\<lambda>(kind, d, blank, p).
                             if thoughtToLog_returns p then [OnThought p] else []) thoughts)
                   @ (if truthy (field p ''task_id'')
                         \<and> field p ''status'' = Some (JStr ''completed'')
                      then [OnComplete (TaskResult (field p ''task_id'')
                                          (or_else (field p ''total_tokens'') (Some (JNum 0)))
                                          (field p ''status''))]
                      else if truthy (field p ''error'') \<and> converts (field p ''error'')
                      then [OnError (ErrorOf (field p ''error''))]
                      else [])"
    by (rule stream_of_events [OF assms wire th nl last])
qed

theorem thoughts_then_terminal_event_witness:
  "response_ok 200
   \<and> concat [''event: thou'',
              ''ght'' @ [CHR 0x0A] @ ''data: '' @ thought_1_text @ [CHR 0x0A, CHR 0x0A]
                @ ''event: thought'' @ [CHR 0x0D, CHR 0x0A] @ ''da'',
              ''ta: '' @ thought_2_text @ [CHR 0x0D, CHR 0x0A, CHR 0x0D, CHR 0x0A]
                @ ''event:thought'' @ [CHR 0x0A] @ ''data:'' @ unprintable_thought_text
                @ [CHR 0x0A, CHR 0x0A] @ ''event: complete'' @ [CHR 0x0A]
                @ ''data: '' @ completed_text @ [CHR 0x0A],
              [CHR 0x0A]]
       = framed_event '' thought'' ('' '' @ thought_1_text) []
           @ framed_event ('' thought'' @ [CHR 0x0D]) ('' '' @ thought_2_text @ [CHR 0x0D]) [CHR 0x0D]
           @ framed_event ''thought'' unprintable_thought_text []
           @ framed_event '' complete'' ('' '' @ completed_text) []
   \<and> parse_examples (trim ('' '' @ thought_1_text)) = Some thought_1
   \<and> truthy (field thought_1 ''step_id'') \<and> thoughtToLog_returns thought_1
   \<and> parse_examples (trim ('' '' @ thought_2_text @ [CHR 0x0D])) = Some thought_2
   \<and> truthy (field thought_2 ''step_id'') \<and> thoughtToLog_returns thought_2
   \<and> parse_examples (trim unprintable_thought_text) = Some unprintable_thought
   \<and> truthy (field unprintable_thought ''step_id'') \<and> \<not> thoughtToLog_returns unprintable_thought
   \<and> parse_examples (trim ('' '' @ completed_text)) = Some completed
   \<and> \<not> truthy (field completed ''step_id'')
   \<and> stream_callbacks parse_examples
        (Responded 200 ''OK''
           (Body [''event: thou'',
              ''ght'' @ [CHR 0x0A] @ ''data: '' @ thought_1_text @ [CHR 0x0A, CHR 0x0A]
                @ ''event: thought'' @ [CHR 0x0D, CHR 0x0A] @ ''da'',
              ''ta: '' @ thought_2_text @ [CHR 0x0D, CHR 0x0A, CHR 0x0D, CHR 0x0A]
                @ ''event:thought'' @ [CHR 0x0A] @ ''data:'' @ unprintable_thought_text
                @ [CHR 0x0A, CHR 0x0A] @ ''event: complete'' @ [CHR 0x0A]
                @ ''data: '' @ completed_text @ [CHR 0x0A],
              [CHR 0x0A]] None))
       = [OnThought thought_1, OnThought thought_2,
          OnComplete (TaskResult (Some (JStr ''task_001'')) (Some (JNum 2500))
                        (Some (JStr ''completed'')))]"
proof -
  let ?chunks = "[''event: thou'',
              ''ght'' @ [CHR 0x0A] @ ''data: '' @ thought_1_text @ [CHR 0x0A, CHR 0x0A]
                @ ''event: thought'' @ [CHR 0x0D, CHR 0x0A] @ ''da'',
              ''ta: '' @ thought_2_text @ [CHR 0x0D, CHR 0x0A, CHR 0x0D, CHR 0x0A]
                @ ''event:thought'' @ [CHR 0x0A] @ ''data:'' @ unprintable_thought_text
                @ [CHR 0x0A, CHR 0x0A] @ ''event: complete'' @ [CHR 0x0A]
                @ ''data: '' @ completed_text @ [CHR 0x0A],
              [CHR 0x0A]]"
  let ?thoughts = "[('' thought'', '' '' @ thought_1_text, [], thought_1),
                    ('' thought'' @ [CHR 0x0D], '' '' @ thought_2_text @ [CHR 0x0D], [CHR 0x0D],
                       thought_2),
                    (''thought'', unprintable_thought_text, [], unprintable_thought)]"
  have ok: "response_ok 200" by (simp add: response_ok_def)
  have wire: "concat ?chunks
       = framed_event '' thought'' ('' '' @ thought_1_text) []
           @ framed_event ('' thought'' @ [CHR 0x0D]) ('' '' @ thought_2_text @ [CHR 0x0D]) [CHR 0x0D]
           @ framed_event ''thought'' unprintable_thought_text []
           @ framed_event '' complete'' ('' '' @ completed_text) []"
    by (simp add: framed_event_def)
  then have wire': "concat ?chunks
       = concat (map (\<lambda>(kind, d, blank, p). framed_event kind d blank) ?thoughts)
           @ framed_event '' complete'' ('' '' @ completed_text) []"
    by simp
  have th: "\<forall>(kind, d, blank, p) \<in> set ?thoughts.
              CHR 0x0A \<notin> set kind \<and> CHR 0x0A \<notin> set d \<and> (blank = [] \<or> blank = [CHR 0x0D])
              \<and> trim d \<noteq> [] \<and> parse_examples (trim d) = Some p \<and> truthy (field p ''step_id'')"
    by (simp add: texts_one_line texts_trim texts_parse texts_nonempty thoughts_step_id)
  have last: "CHR 0x0A \<notin> set '' complete''" "CHR 0x0A \<notin> set ('' '' @ completed_text)"
    "[] = [] \<or> [] = [CHR 0x0D]" "trim ('' '' @ completed_text) \<noteq> []"
    "parse_examples (trim ('' '' @ completed_text)) = Some completed"
    by (simp_all add: texts_one_line texts_trim texts_parse texts_nonempty)
  from thoughts_then_terminal_event [OF ok, of parse_examples "''OK''" ?chunks ?thoughts
         "'' complete''" "'' '' @ completed_text" "[]" completed]
       wire' th last thoughts_step_id(5)
  have "stream_callbacks parse_examples (Responded 200 ''OK'' (Body ?chunks None))
       = concat (map (\<lambda>(kind, d, blank, p).
                   if thoughtToLog_returns p then [OnThought p] else []) ?thoughts)
         @ (if truthy (field completed ''task_id'')
               \<and> field completed ''status'' = Some (JStr ''completed'')
            then [OnComplete (TaskResult (field completed ''task_id'')
                                (or_else (field completed ''total_tokens'') (Some (JNum 0)))
                                (field completed ''status''))]
            else if truthy (field completed ''error'') \<and> converts (field completed ''error'')
            then [OnError (ErrorOf (field completed ''error''))]
            else [])"
    by blast
  then have "stream_callbacks parse_examples (Responded 200 ''OK'' (Body ?chunks None))
       = [OnThought thought_1, OnThought thought_2,
          OnComplete (TaskResult (Some (JStr ''task_001'')) (Some (JNum 2500))
                        (Some (JStr ''completed'')))]"
    by (simp add: thoughts_convert completed_def field_def or_else_def)
  with ok wire show ?thesis
    by (simp add: texts_trim texts_parse thoughts_step_id thoughts_convert)
qed

subsection \<open>The abort controller\<close>

lemma inv_new: "controller_inv new_service"
  by (simp add: controller_inv_def new_service_def)

lemma inv_abort: "controller_inv sv \<Longrightarrow> controller_inv (abort sv)"
  by (auto simp: controller_inv_def abort_def nth_list_update split: option.splits)

lemma abort_clears: "abortController (abort sv) = None"
  by (simp add: abort_def split: option.splits)

lemma abort_length: "length (controllers (abort sv)) = length (controllers sv)"
  by (simp add: abort_def split: option.splits)

lemma inv_start: "controller_inv sv \<Longrightarrow> controller_inv (executeWithStream_start sv)"
proof -
  assume "controller_inv sv"
  then have a: "controller_inv (abort sv)" by (rule inv_abort)
  show ?thesis
    using a abort_clears [of sv]
    by (auto simp: controller_inv_def executeWithStream_start_def Let_def nth_append)
qed

lemma calls_snoc: "calls (cs @ [c]) = call_service (calls cs) c"
  by (simp add: calls_def)

lemma inv_calls: "controller_inv (calls cs)"
proof (induction cs rule: rev_induct)
  case Nil
  show ?case by (simp add: calls_def inv_new)
next
  case (snoc c cs)
  then show ?case
    by (cases c) (simp_all add: calls_snoc inv_abort inv_start)
qed

lemma live_stored: "controller_inv sv \<Longrightarrow> c \<in> set (live sv) \<Longrightarrow> abortController sv = Some c"
  by (auto simp: controller_inv_def live_def)

lemma live_at_most_one:
  assumes "controller_inv sv" shows "length (live sv) \<le> 1"
proof (cases "abortController sv")
  case None
  have "live sv = []"
  proof (cases "live sv")
    case (Cons c cs)
    then have "c \<in> set (live sv)" by simp
    from live_stored [OF assms this] None show ?thesis by simp
  qed simp
  then show ?thesis by simp
next
  case (Some c)
  have d: "distinct (live sv)" by (simp add: live_def)
  from Some live_stored [OF assms] have "set (live sv) \<subseteq> {c}" by auto
  then have "card (set (live sv)) \<le> card {c}"
    by (intro card_mono) simp_all
  with d show ?thesis by (simp add: distinct_card)
qed

lemma start_cancels:
  assumes "controller_inv sv" and "abortController sv = Some c"
  shows "controllers (executeWithStream_start sv) ! c"
    and "abortController (executeWithStream_start sv) = Some (length (controllers sv))"
    and "\<not> controllers (executeWithStream_start sv) ! length (controllers sv)"
  using assms
  by (auto simp: controller_inv_def executeWithStream_start_def abort_def Let_def nth_append)

lemma start_live:
  assumes "controller_inv sv"
  shows "live (executeWithStream_start sv) = [length (controllers sv)]"
proof -
  let ?sv' = "executeWithStream_start sv"
  have i: "controller_inv ?sv'" using assms by (rule inv_start)
  have st: "abortController ?sv' = Some (length (controllers sv))"
    by (simp add: executeWithStream_start_def Let_def abort_length)
  have len: "length (controllers ?sv') = Suc (length (controllers sv))"
    by (simp add: executeWithStream_start_def Let_def abort_length)
  have fresh: "\<not> controllers ?sv' ! length (controllers sv)"
    by (simp add: executeWithStream_start_def Let_def abort_length nth_append)
  have "length (controllers sv) \<in> set (live ?sv')"
    using fresh len by (simp add: live_def)
  moreover have "set (live ?sv') \<subseteq> {length (controllers sv)}"
    using live_stored [OF i] st by auto
  ultimately have "set (live ?sv') = {length (controllers sv)}" by auto
  moreover have "distinct (live ?sv')" by (simp add: live_def)
  moreover have "length (live ?sv') \<le> 1" using i by (rule live_at_most_one)
  ultimately show ?thesis
    by (cases "live ?sv'") auto
qed

text \<open>
  Claim C9. After any sequence of \<open>executeWithStream\<close> and \<open>abort\<close> calls at most one
  request has a signal that is not aborted, and it is the request of the controller the
  service keeps; \<open>abort\<close> clears the kept controller; and starting a stream while a
  controller is kept aborts that controller and leaves the new request as the only live
  one.
\<close>

theorem one_stream_in_flight:
  "length (live (calls cs)) \<le> 1
   \<and> (\<forall>c \<in> set (live (calls cs)). abortController (calls cs) = Some c)
   \<and> abortController (abort sv) = None
   \<and> (abortController (calls cs) = Some c \<longrightarrow>
        controllers (executeWithStream_start (calls cs)) ! c
        \<and> live (executeWithStream_start (calls cs)) = [length (controllers (calls cs))])"
  using live_at_most_one [OF inv_calls, of cs] live_stored [OF inv_calls, of _ cs]
        abort_clears [of sv] start_cancels(1) [OF inv_calls, of cs c] start_live [OF inv_calls, of cs]
  by blast

theorem one_stream_in_flight_witness:
  "calls [ExecuteWithStream, ExecuteWithStream] = \<lparr> abortController = Some 1, controllers = [True, False] \<rparr>
   \<and> live (calls [ExecuteWithStream, ExecuteWithStream]) = [1]
   \<and> length (live (calls [ExecuteWithStream, ExecuteWithStream])) \<le> 1
   \<and> abortController (calls [ExecuteWithStream]) = Some 0
   \<and> controllers (executeWithStream_start (calls [ExecuteWithStream])) ! 0
   \<and> live (executeWithStream_start (calls [ExecuteWithStream])) = [length (controllers (calls [ExecuteWithStream]))]
   \<and> abortController (abort (calls [ExecuteWithStream])) = None
   \<and> live (abort (calls [ExecuteWithStream])) = []"
proof -
  have one: "calls [ExecuteWithStream] = \<lparr> abortController = Some 0, controllers = [False] \<rparr>"
    by (simp add: calls_def executeWithStream_start_def abort_def new_service_def)
  have two: "calls [ExecuteWithStream, ExecuteWithStream]
               = \<lparr> abortController = Some 1, controllers = [True, False] \<rparr>"
    by (simp add: calls_def executeWithStream_start_def abort_def new_service_def)
  have l2: "live (calls [ExecuteWithStream, ExecuteWithStream]) = [1]"
    by (simp add: two live_def upt_rec)
  have la: "live (abort (calls [ExecuteWithStream])) = []"
    by (simp add: one live_def abort_def upt_rec)
  have st: "abortController (calls [ExecuteWithStream]) = Some 0"
    by (simp add: one)
  from one_stream_in_flight [of "[ExecuteWithStream, ExecuteWithStream]" "calls [ExecuteWithStream]" 0]
       one_stream_in_flight [of "[ExecuteWithStream]" "calls [ExecuteWithStream]" 0] st
  have "length (live (calls [ExecuteWithStream, ExecuteWithStream])) \<le> 1"
   and "abortController (abort (calls [ExecuteWithStream])) = None"
   and "controllers (executeWithStream_start (calls [ExecuteWithStream])) ! 0"
   and "live (executeWithStream_start (calls [ExecuteWithStream])) = [length (controllers (calls [ExecuteWithStream]))]"
    by blast+
  with two l2 la st show ?thesis by blast
qed

subsection \<open>The health check\<close>

text \<open>
  Claim C10. \<open>healthCheck\<close> never rejects: for every behaviour of the back end it
  resolves to a boolean, which is true exactly when the back end answers before the
  timeout of 3000 milliseconds with a status from 200 to 299, and false when it cannot
  be reached, answers with another status, or does not answer in time.
\<close>

theorem healthCheck_never_throws:
  "\<exists>ok. healthCheck b = Inr ok
      \<and> (ok \<longleftrightarrow> (\<exists>delay status. b = Answers delay status \<and> delay < 3000
                      \<and> 200 \<le> status \<and> status \<le> 299))"
  by (cases b) (auto simp: healthCheck_def fetch_with_timeout_def response_ok_def)

subsection \<open>The keyword queue\<close>

lemma enqueue_seen: "seen_or_queued st k \<Longrightarrow> enqueue_keyword st k = st"
  by (simp add: enqueue_keyword_def)

lemma seen_after_enqueue:
  "normalize_keyword k' = normalize_keyword k \<Longrightarrow> seen_or_queued (enqueue_keyword st k) k'"
  by (auto simp: enqueue_keyword_def seen_or_queued_def)

lemma enqueue_distinct:
  assumes "distinct (map normalize_keyword (pending_searches st))"
  shows "distinct (map normalize_keyword (pending_searches (enqueue_keyword st k)))"
  using assms by (auto simp: enqueue_keyword_def seen_or_queued_def)

text \<open>However many keywords are discovered, the queue never holds two of one form.\<close>

lemma discovered_keywords_distinct:
  "distinct (map normalize_keyword (pending_searches (foldl enqueue_keyword (new_state t c) ks)))"
proof (induction ks rule: rev_induct)
  case Nil
  show ?case by (simp add: new_state_def)
next
  case (snoc k ks)
  then show ?case by (simp add: enqueue_distinct)
qed

text \<open>
  Claim C5, on the enqueueing as the spec describes it. A keyword that is already seen or
  already queued, compared in normalised form, leaves the state as it is; enqueueing a
  keyword and then a keyword of the same normalised form gives the state of enqueueing
  it once; and a queue without two entries of the same normalised form stays so.
\<close>

theorem rediscovered_keyword_is_not_requeued:
  "(seen_or_queued st k \<longrightarrow> enqueue_keyword st k = st)
   \<and> (normalize_keyword k' = normalize_keyword k \<longrightarrow>
        enqueue_keyword (enqueue_keyword st k) k' = enqueue_keyword st k)
   \<and> (distinct (map normalize_keyword (pending_searches st)) \<longrightarrow>
        distinct (map normalize_keyword (pending_searches (enqueue_keyword st k))))"
  using enqueue_seen [of st k] enqueue_seen [OF seen_after_enqueue, of k' k st]
        enqueue_distinct [of st k]
  by blast

lemma normalize_spaced: "normalize_keyword ''  deepseek   r1 '' = ''deepseek r1''"
  by (simp add: normalize_keyword_def to_lower_def is_space_def)
lemma normalize_capitalised: "normalize_keyword ''DeepSeek R1'' = ''deepseek r1''"
  by (simp add: normalize_keyword_def to_lower_def is_space_def)

theorem rediscovered_keyword_is_not_requeued_witness:
  "normalize_keyword ''  deepseek   r1 '' = normalize_keyword ''DeepSeek R1''
   \<and> enqueue_keyword (new_state ''task_003'' ''Monitor DeepSeek'') ''DeepSeek R1''
       = (new_state ''task_003'' ''Monitor DeepSeek'')
           \<lparr>discovered_keywords := [''DeepSeek R1''], pending_searches := [''DeepSeek R1'']\<rparr>
   \<and> seen_or_queued (enqueue_keyword (new_state ''task_003'' ''Monitor DeepSeek'') ''DeepSeek R1'')
        ''  deepseek   r1 ''
   \<and> enqueue_keyword (enqueue_keyword (new_state ''task_003'' ''Monitor DeepSeek'') ''DeepSeek R1'')
        ''  deepseek   r1 ''
       = enqueue_keyword (new_state ''task_003'' ''Monitor DeepSeek'') ''DeepSeek R1''
   \<and> distinct (map normalize_keyword (pending_searches (new_state ''task_003'' ''Monitor DeepSeek'')))
   \<and> distinct (map normalize_keyword (pending_searches
        (enqueue_keyword (new_state ''task_003'' ''Monitor DeepSeek'') ''DeepSeek R1'')))"
proof -
  let ?s = "new_state ''task_003'' ''Monitor DeepSeek''"
  have eq: "normalize_keyword ''  deepseek   r1 '' = normalize_keyword ''DeepSeek R1''"
    by (simp add: normalize_spaced normalize_capitalised)
  have e1: "enqueue_keyword ?s ''DeepSeek R1''
       = ?s\<lparr>discovered_keywords := [''DeepSeek R1''], pending_searches := [''DeepSeek R1'']\<rparr>"
    by (simp add: enqueue_keyword_def seen_or_queued_def new_state_def)
  have seen: "seen_or_queued (enqueue_keyword ?s ''DeepSeek R1'') ''  deepseek   r1 ''"
    by (simp add: e1 seen_or_queued_def normalize_spaced normalize_capitalised)
  have d0: "distinct (map normalize_keyword (pending_searches ?s))"
    by (simp add: new_state_def)
  note inst1 = rediscovered_keyword_is_not_requeued
                 [where st = "enqueue_keyword ?s ''DeepSeek R1''" and k = "''  deepseek   r1 ''"
                    and k' = "''  deepseek   r1 ''"]
  note inst2 = rediscovered_keyword_is_not_requeued
                 [where st = ?s and k = "''DeepSeek R1''" and k' = "''  deepseek   r1 ''"]
  from inst2 eq d0 have
    "enqueue_keyword (enqueue_keyword ?s ''DeepSeek R1'') ''  deepseek   r1 ''
       = enqueue_keyword ?s ''DeepSeek R1''"
    "distinct (map normalize_keyword (pending_searches (enqueue_keyword ?s ''DeepSeek R1'')))"
    by blast+
  with eq e1 seen d0 inst1 show ?thesis by blast
qed

end
